theory Spec2Isabelle
  imports Complex_Main
begin

section \<open>The arithmetic of \<^verbatim>\<open>float\<close>\<close>

text \<open>
  A \<^verbatim>\<open>float\<close> is an IEEE 754 binary32 number. The model keeps the finite ones, as the
  rational numbers they are; every operation computes the exact result and rounds it to the
  nearest binary32 number, ties to the even significand (no fused multiply-add). Infinities
  and NaN are not modelled: the exponent is not bounded above, and a division is only
  applied to a divisor that is not zero. The values of the program are visit counts, means
  and scores, all far below \<open>2 ^ 128\<close>.
\<close>

type_synonym float32 = rat

text \<open>Rounding a rational number to the nearest integer, ties to the even one.\<close>

definition rne :: "rat \<Rightarrow> int" where
  "rne r =
     (if r - of_int \<lfloor>r\<rfloor> < 1 / 2 then \<lfloor>r\<rfloor>
      else if r - of_int \<lfloor>r\<rfloor> > 1 / 2 then \<lfloor>r\<rfloor> + 1
      else if even \<lfloor>r\<rfloor> then \<lfloor>r\<rfloor> else \<lfloor>r\<rfloor> + 1)"

text \<open>The number of binary digits of a positive integer.\<close>

function bits :: "int \<Rightarrow> nat" where
  "bits n = (if n \<le> 0 then 0 else Suc (bits (n div 2)))"
  by pat_completeness auto
termination
  by (relation "measure nat") auto

declare bits.simps [simp del]

text \<open>
  Rounding \<open>x \<ge> 0\<close>. \<open>y\<close> is \<open>x\<close> in units of \<open>2 ^ -149\<close>, the smallest positive
  binary32 number. A binary32 number has a significand of 24 binary digits, so the unit in
  the last place of \<open>y\<close> is \<open>2 ^ k\<close> for the number \<open>k\<close> of digits that \<open>\<lfloor>y\<rfloor>\<close> has
  beyond 24 (\<open>k = 0\<close> on the subnormal numbers and on the first binade of the normal ones),
  and \<open>y\<close> is rounded to an integer multiple of it.
\<close>

definition ulpExp :: "rat \<Rightarrow> nat" where
  "ulpExp y = bits \<lfloor>y\<rfloor> - 24"

definition roundPos :: "rat \<Rightarrow> float32" where
  "roundPos x =
     of_int (rne (x * 2 ^ 149 / 2 ^ ulpExp (x * 2 ^ 149))) * 2 ^ ulpExp (x * 2 ^ 149) / 2 ^ 149"

definition round32 :: "rat \<Rightarrow> float32" where
  "round32 x = (if x < 0 then - roundPos (- x) else roundPos x)"

text \<open>
  The operators \<open>+\<close>, \<open>-\<close>, \<open>*\<close> and \<open>/\<close> on \<^verbatim>\<open>float\<close>, and the conversion of a
  \<^verbatim>\<open>size_t\<close> to \<^verbatim>\<open>float\<close>.
\<close>

definition fadd :: "float32 \<Rightarrow> float32 \<Rightarrow> float32" where
  "fadd a b = round32 (a + b)"

definition fsub :: "float32 \<Rightarrow> float32 \<Rightarrow> float32" where
  "fsub a b = round32 (a - b)"

definition fmul :: "float32 \<Rightarrow> float32 \<Rightarrow> float32" where
  "fmul a b = round32 (a * b)"

definition fdiv :: "float32 \<Rightarrow> float32 \<Rightarrow> float32" where
  "fdiv a b = round32 (a / b)"

definition toFloat :: "nat \<Rightarrow> float32" where
  "toFloat n = round32 (of_nat n)"

section \<open>The board of mcreversi.cpp\<close>

text \<open>
  The constants of the source file. A board is the \<^verbatim>\<open>std::array<Cell, BOARD_CELLS>\<close>
  of class \<^verbatim>\<open>Board\<close>, modelled as a list of cells in row-major order; the array always
  has \<open>BOARD_CELLS\<close> entries, which theorems about all boards assume as \<open>length b = BOARD_CELLS\<close>.
\<close>

definition BOARD_SIZE :: nat where
  "BOARD_SIZE = 8"

definition BOARD_CELLS :: nat where
  "BOARD_CELLS = BOARD_SIZE * BOARD_SIZE"

definition INITIAL_BOARD :: string where
  "INITIAL_BOARD =
     ''........'' @
     ''........'' @
     ''........'' @
     ''...OX...'' @
     ''...XO...'' @
     ''........'' @
     ''........'' @
     ''........''"

definition MIN_VISITS_TO_EXPAND :: nat where
  "MIN_VISITS_TO_EXPAND = 1"

datatype Player = P_BLACK | P_WHITE

datatype Cell = BLACK | WHITE | EMPTY

type_synonym Board = "Cell list"

text \<open>
  What stops the program: a failed \<^verbatim>\<open>assert\<close>, and the \<^verbatim>\<open>std::out_of_range\<close> that
  \<^verbatim>\<open>std::array::at\<close> throws (nothing catches it).
\<close>

datatype error = AssertFailed | OutOfRange

fun typeToChar :: "Cell \<Rightarrow> char" where
  "typeToChar BLACK = CHR ''X''"
| "typeToChar WHITE = CHR ''O''"
| "typeToChar EMPTY = CHR ''.''"

text \<open>
  \<^verbatim>\<open>tolower\<close> of the C library in the default locale: the letters \<open>A\<close> to \<open>Z\<close>
  (codes 65 to 90) move up by 32, every other character is returned as it is.
\<close>

definition tolower :: "char \<Rightarrow> char" where
  "tolower chr =
     (if 65 \<le> (of_char chr :: nat) \<and> (of_char chr :: nat) \<le> 90
      then char_of ((of_char chr :: nat) + 32) else chr)"

text \<open>\<^verbatim>\<open>parseCell\<close>: a character outside the three cases reaches \<^verbatim>\<open>assert(false)\<close>.\<close>

definition parseCell :: "char \<Rightarrow> error + Cell" where
  "parseCell chr =
     (if tolower chr = CHR ''x'' then Inr BLACK
      else if tolower chr = CHR ''o'' then Inr WHITE
      else if tolower chr = CHR ''.'' then Inr EMPTY
      else Inl AssertFailed)"

text \<open>
  The constructor \<^verbatim>\<open>Board(const std::string&)\<close>. The loop writes
  \<^verbatim>\<open>cells_.at(idx++) = parseCell(chr)\<close> for each character: the right-hand side is
  evaluated first, then \<^verbatim>\<open>at\<close> throws when \<open>idx\<close> has reached \<open>BOARD_CELLS\<close>. After
  the loop \<^verbatim>\<open>assert(idx == BOARD_CELLS)\<close>. The array starts uninitialised: the model
  takes its first content as the argument \<open>cells\<close>.
\<close>

fun Board_loop :: "Board \<Rightarrow> nat \<Rightarrow> string \<Rightarrow> error + (Board \<times> nat)" where
  "Board_loop cells idx [] = Inr (cells, idx)"
| "Board_loop cells idx (chr # str) =
     (case parseCell chr of
        Inl e \<Rightarrow> Inl e
      | Inr c \<Rightarrow>
          if idx < BOARD_CELLS then Board_loop (cells[idx := c]) (idx + 1) str
          else Inl OutOfRange)"

definition Board_of :: "Board \<Rightarrow> string \<Rightarrow> error + Board" where
  "Board_of cells str =
     (case Board_loop cells 0 str of
        Inl e \<Rightarrow> Inl e
      | Inr (cells', idx) \<Rightarrow> if idx = BOARD_CELLS then Inr cells' else Inl AssertFailed)"

text \<open>
  \<^verbatim>\<open>Board::at(x, y)\<close> reads or writes \<^verbatim>\<open>cells_.at(x + y * BOARD_SIZE)\<close>. Every call of
  it in \<^verbatim>\<open>put\<close> comes after an \<^verbatim>\<open>isInBound\<close> test of the same coordinates, which keeps
  the index below \<open>BOARD_CELLS\<close> (lemma \<open>isInBound_index\<close> below), so that \<^verbatim>\<open>at\<close> does
  not throw there.
\<close>

definition atB :: "Board \<Rightarrow> nat \<Rightarrow> nat \<Rightarrow> Cell" where
  "atB b x y = b ! (x + y * BOARD_SIZE)"

definition setB :: "Board \<Rightarrow> nat \<Rightarrow> nat \<Rightarrow> Cell \<Rightarrow> Board" where
  "setB b x y c = b[x + y * BOARD_SIZE := c]"

definition isFilled :: "Board \<Rightarrow> bool" where
  "isFilled b = list_all (\<lambda>cell. cell \<noteq> EMPTY) b"

text \<open>
  The counter of \<^verbatim>\<open>getBlackOccupation\<close>, and the quotient
  \<^verbatim>\<open>static_cast<float>(black) / BOARD_CELLS\<close> it returns.
\<close>

definition countBlack :: "Board \<Rightarrow> nat" where
  "countBlack b = fold (\<lambda>cell black. if cell = BLACK then black + 1 else black) b 0"

definition getBlackOccupation :: "Board \<Rightarrow> float32" where
  "getBlackOccupation b = fdiv (toFloat (countBlack b)) (toFloat BOARD_CELLS)"

fun flipCell :: "Cell \<Rightarrow> Cell" where
  "flipCell BLACK = WHITE"
| "flipCell WHITE = BLACK"
| "flipCell EMPTY = EMPTY"

definition flipPlayer :: "Board \<Rightarrow> Board" where
  "flipPlayer b = map flipCell b"

definition flipped :: "Board \<Rightarrow> Board" where
  "flipped b = flipPlayer b"

text \<open>
  \<^verbatim>\<open>isInBound(x, y, dx, dy)\<close>, with \<open>x\<close>, \<open>y\<close> of type \<^verbatim>\<open>size_t\<close> and \<open>dx\<close>, \<open>dy\<close>
  of type \<^verbatim>\<open>int\<close>. Past the two tests a negative offset is at most the coordinate, so the
  unsigned sum \<^verbatim>\<open>x + dx\<close> is the integer sum. \<^verbatim>\<open>put\<close> is its only caller: first with
  offsets 0, then with coordinates below \<open>BOARD_SIZE\<close> and offsets \<^verbatim>\<open>n * dx\<close> for a
  step in \<open>{-1, 0, 1}\<close> and \<open>n\<close> at most \<open>BOARD_SIZE\<close>, where no sum leaves the range
  of \<^verbatim>\<open>size_t\<close> or \<^verbatim>\<open>int\<close>.
\<close>

definition isInBound :: "nat \<Rightarrow> nat \<Rightarrow> int \<Rightarrow> int \<Rightarrow> bool" where
  "isInBound x y dx dy =
     (if dx < 0 \<and> nat (- dx) > x then False
      else if dy < 0 \<and> nat (- dy) > y then False
      else int x + dx < int BOARD_SIZE \<and> int y + dy < int BOARD_SIZE)"

text \<open>
  The innermost \<^verbatim>\<open>for\<close> loop of \<^verbatim>\<open>put\<close>, which walks from \<open>(x, y)\<close> in direction
  \<open>(dx, dy)\<close>; it returns the final \<open>n\<close> and \<open>blackFound\<close>. The source reaches
  the loop only past \<^verbatim>\<open>if (dx == 0 && dy == 0) continue\<close>; the test is repeated here,
  which makes the recursion total.
\<close>

function scan :: "Board \<Rightarrow> nat \<Rightarrow> nat \<Rightarrow> int \<Rightarrow> int \<Rightarrow> nat \<Rightarrow> nat \<times> bool" where
  "scan b x y dx dy n =
     (if (dx \<noteq> 0 \<or> dy \<noteq> 0) \<and> isInBound x y (int n * dx) (int n * dy) then
        (let state = atB b (nat (int x + int n * dx)) (nat (int y + int n * dy)) in
         if state = BLACK then (n, True)
         else if state \<noteq> WHITE then (n, False)
         else scan b x y dx dy (n + 1))
      else (n, False))"
  by pat_completeness auto
termination
proof (relation "measure (\<lambda>(b, x, y, dx, dy, n).
         if dx > 0 then BOARD_SIZE - n
         else if dx < 0 then x + 1 - n
         else if dy > 0 then BOARD_SIZE - n
         else y + 1 - n)")
  show "wf (measure (\<lambda>(b, x, y, dx, dy, n).
         if dx > 0 then BOARD_SIZE - n
         else if dx < 0 then x + 1 - n
         else if dy > 0 then BOARD_SIZE - n
         else y + 1 - n))"
    by simp
next
  fix b :: Board and x y :: nat and dx dy :: int and n :: nat and state :: Cell
  assume g: "(dx \<noteq> 0 \<or> dy \<noteq> 0) \<and> isInBound x y (int n * dx) (int n * dy)"
  have pos: "n < 8" if d: "0 < d" and lt: "int c + int n * d < 8" for d :: int and c :: nat
  proof -
    have "int n * 1 \<le> int n * d" using d by (intro mult_left_mono) auto
    then show "n < 8" using lt by linarith
  qed
  have neg: "n \<le> c" if d: "d < 0" and le: "\<not> (int n * d < 0 \<and> nat (- (int n * d)) > c)"
    for d :: int and c :: nat
  proof (cases "n = 0")
    case True
    then show ?thesis by simp
  next
    case False
    have "int n * d \<le> int n * (- 1)" using d by (intro mult_left_mono) auto
    then have m: "int n * d \<le> - int n" by simp
    then have "int n * d < 0" using False by linarith
    with le have "nat (- (int n * d)) \<le> c" by simp
    then show ?thesis using m by linarith
  qed
  from g have ib: "isInBound x y (int n * dx) (int n * dy)" and nz: "dx \<noteq> 0 \<or> dy \<noteq> 0"
    by simp_all
  have bx: "\<not> (int n * dx < 0 \<and> nat (- (int n * dx)) > x)"
    and by': "\<not> (int n * dy < 0 \<and> nat (- (int n * dy)) > y)"
    and ux: "int x + int n * dx < 8" and uy: "int y + int n * dy < 8"
    using ib by (auto simp: isInBound_def BOARD_SIZE_def split: if_splits)
  consider "dx > 0" | "dx < 0" | "dx = 0" "dy > 0" | "dx = 0" "dy < 0"
    using nz by linarith
  then show "((b, x, y, dx, dy, n + 1), (b, x, y, dx, dy, n))
      \<in> measure (\<lambda>(b, x, y, dx, dy, n).
         if dx > 0 then BOARD_SIZE - n
         else if dx < 0 then x + 1 - n
         else if dy > 0 then BOARD_SIZE - n
         else y + 1 - n)"
  proof cases
    case 1
    then show ?thesis using pos [OF 1 ux] unfolding BOARD_SIZE_def by auto
  next
    case 2
    then show ?thesis using neg [OF 2 bx] by auto
  next
    case 3
    then show ?thesis using pos [OF 3(2) uy] unfolding BOARD_SIZE_def by auto
  next
    case 4
    then show ?thesis using neg [OF 4(2) by'] by auto
  qed
qed

declare scan.simps [simp del]

text \<open>The loop \<^verbatim>\<open>for (size_t i = 1; i < n; ++i) at(x + i * dx, y + i * dy) = Cell::BLACK\<close>.\<close>

definition flipRun :: "Board \<Rightarrow> nat \<Rightarrow> nat \<Rightarrow> int \<Rightarrow> int \<Rightarrow> nat \<Rightarrow> Board" where
  "flipRun b x y dx dy n =
     fold (\<lambda>i b'. setB b' (nat (int x + int i * dx)) (nat (int y + int i * dy)) BLACK) [1..<n] b"

text \<open>The body of the two loops over \<open>dx\<close> and \<open>dy\<close>, on the pair \<open>(valid, board)\<close>.\<close>

definition putDir :: "nat \<Rightarrow> nat \<Rightarrow> int \<Rightarrow> int \<Rightarrow> bool \<times> Board \<Rightarrow> bool \<times> Board" where
  "putDir x y dx dy s =
     (if dx = 0 \<and> dy = 0 then s
      else
        (let (n, blackFound) = scan (snd s) x y dx dy 1 in
         if blackFound \<and> n > 1 then (True, flipRun (snd s) x y dx dy n) else s))"

text \<open>\<^verbatim>\<open>Board::put\<close>: the value returned and the board it leaves.\<close>

definition put :: "nat \<Rightarrow> nat \<Rightarrow> Board \<Rightarrow> bool \<times> Board" where
  "put x y b =
     (if \<not> isInBound x y 0 0 \<or> atB b x y \<noteq> EMPTY then (False, b)
      else
        fold (\<lambda>dx. fold (\<lambda>dy. putDir x y dx dy) [- 1, 0, 1]) [- 1, 0, 1]
          (False, setB b x y BLACK))"

text \<open>
  \<^verbatim>\<open>Board::getNextStates\<close>: \<open>tmp\<close> is a fresh copy of the board at every position, so
  the loops only carry the vector \<open>boards\<close>.
\<close>

definition getNextStates :: "Board \<Rightarrow> Board list" where
  "getNextStates b =
     fold (\<lambda>y. fold (\<lambda>x boards.
             (let (ok, tmp) = put x y b in
              if ok then boards @ [flipPlayer tmp] else boards)) [0..<BOARD_SIZE])
       [0..<BOARD_SIZE] []"

text \<open>
  The positions in the order in which the two loops of \<^verbatim>\<open>getNextStates\<close> visit them
  (\<open>y\<close> outside, \<open>x\<close> inside).
\<close>

definition coords :: "(nat \<times> nat) list" where
  "coords = concat (map (\<lambda>y. map (\<lambda>x. (x, y)) [0..<BOARD_SIZE]) [0..<BOARD_SIZE])"

text \<open>
  The cells that \<^verbatim>\<open>Board()\<close> builds from \<open>INITIAL_BOARD\<close> (lemma \<open>Board_of_INITIAL\<close>).
\<close>

definition INITIAL_CELLS :: Board where
  "INITIAL_CELLS =
     replicate 27 EMPTY @ [WHITE, BLACK] @ replicate 6 EMPTY @ [BLACK, WHITE] @ replicate 27 EMPTY"

text \<open>
  \<^verbatim>\<open>toupper\<close> of the C library, the counterpart of \<open>tolower\<close>; the program does not call
  it, it only serves to name the upper-case form of a layout string.
\<close>

definition toupper :: "char \<Rightarrow> char" where
  "toupper chr =
     (if 97 \<le> (of_char chr :: nat) \<and> (of_char chr :: nat) \<le> 122
      then char_of ((of_char chr :: nat) - 32) else chr)"

text \<open>
  What \<^verbatim>\<open>put\<close> may do to a board once the stone is placed: a cell keeps its value, or it
  was \<open>WHITE\<close> and is now \<open>BLACK\<close>.
\<close>

definition onlyFlips :: "Board \<Rightarrow> Board \<Rightarrow> bool" where
  "onlyFlips b b' \<longleftrightarrow>
     length b' = length b \<and>
     (\<forall>i<length b. b' ! i = b ! i \<or> (b ! i = WHITE \<and> b' ! i = BLACK))"

section \<open>The search tree\<close>

text \<open>
  A \<^verbatim>\<open>Node\<close> holds a raw pointer to its parent and shared pointers to its children, and
  \<^verbatim>\<open>propagateResult\<close> writes through the parent pointers. The model keeps the nodes in a
  store, a list in the order of their construction; a pointer is an index into it, the null
  pointer is \<open>None\<close>. The \<^verbatim>\<open>float\<close> field \<^verbatim>\<open>mean_\<close> and the values propagated are binary32
  numbers, computed with the rounding operations above. \<^verbatim>\<open>games_\<close> is a \<^verbatim>\<open>size_t\<close> counter that
  only grows by one per playout and is modelled as a natural number. A field \<^verbatim>\<open>name_\<close>
  of the class is the field \<open>m_name\<close> of the record.
\<close>

record Node =
  m_board :: Board
  m_player :: Player
  m_isPassMove :: bool
  m_games :: nat
  m_mean :: float32
  m_parent :: "nat option"
  m_children :: "nat list"

type_synonym Tree = "Node list"

text \<open>
  \<^verbatim>\<open>const float EXPLORATION_CONST = M_SQRT2\<close>: the macro \<^verbatim>\<open>M_SQRT2\<close> of the C library
  is the literal \<^verbatim>\<open>1.41421356237309504880\<close> of type \<^verbatim>\<open>double\<close>, whose value is the
  binary64 number \<open>0x1.6a09e667f3bcdp+0\<close> below, and the initialisation rounds it to
  binary32 (the result is \<open>0x1.6a09e6p+0\<close>, lemma \<open>EXPLORATION_CONST_value\<close>).
\<close>

definition M_SQRT2 :: rat where
  "M_SQRT2 = 6369051672525773 / 4503599627370496"

definition EXPLORATION_CONST :: float32 where
  "EXPLORATION_CONST = round32 M_SQRT2"

text \<open>The constructor \<^verbatim>\<open>Node(board, player, parent)\<close>.\<close>

definition Node_new :: "Board \<Rightarrow> Player \<Rightarrow> nat option \<Rightarrow> Node" where
  "Node_new board player parent =
     \<lparr>m_board = board, m_player = player, m_isPassMove = False, m_games = 0, m_mean = 0,
      m_parent = parent, m_children = []\<rparr>"

text \<open>The other player: \<^verbatim>\<open>(player == Player::BLACK) ? Player::WHITE : Player::BLACK\<close>.\<close>

definition nextPlayer :: "Player \<Rightarrow> Player" where
  "nextPlayer player = (if player = P_BLACK then P_WHITE else P_BLACK)"

definition isLeafNode :: "Tree \<Rightarrow> nat \<Rightarrow> bool" where
  "isLeafNode t i =
     (m_children (t ! i) = []
      \<or> isFilled (m_board (t ! i))
      \<or> (case m_parent (t ! i) of
            None \<Rightarrow> False
          | Some p \<Rightarrow> m_isPassMove (t ! i) \<and> m_isPassMove (t ! p)))"

text \<open>
  \<^verbatim>\<open>children_.emplace_back(std::make_shared<Node>(board, nextPlayer, this))\<close> for each board
  of a list: the new node goes to the end of the store, its index to the end of the
  children of node \<open>i\<close>.
\<close>

fun addChildren :: "Tree \<Rightarrow> nat \<Rightarrow> Board list \<Rightarrow> Player \<Rightarrow> Tree" where
  "addChildren t i [] player = t"
| "addChildren t i (board # boards) player =
     addChildren
       ((t @ [Node_new board player (Some i)])
          [i := (t ! i)\<lparr>m_children := m_children (t ! i) @ [length t]\<rparr>])
       i boards player"

text \<open>
  The second \<^verbatim>\<open>if\<close> of \<^verbatim>\<open>Node::expand\<close>. \<^verbatim>\<open>isPassMove_\<close> is written before the parent is
  read, so the parent's flag is read from the updated store.
\<close>

definition expandBody :: "Tree \<Rightarrow> nat \<Rightarrow> error + Tree" where
  "expandBody t i =
     (if m_children (t ! i) = [] \<and> m_games (t ! i) \<ge> MIN_VISITS_TO_EXPAND then
        (let next = nextPlayer (m_player (t ! i));
             boards = getNextStates (m_board (t ! i));
             t1 = t[i := (t ! i)\<lparr>m_isPassMove := (boards = [])\<rparr>]
         in if m_isPassMove (t1 ! i) then
              (case m_parent (t1 ! i) of
                 None \<Rightarrow> Inl AssertFailed
               | Some p \<Rightarrow>
                   if \<not> m_isPassMove (t1 ! p)
                   then Inr (addChildren t1 i [flipped (m_board (t1 ! i))] next)
                   else Inr t1)
            else Inr (addChildren t1 i boards next))
      else Inr t)"

text \<open>\<^verbatim>\<open>Node::expand\<close>; \<^verbatim>\<open>assert(m_parent)\<close> fails on a node without parent.\<close>

definition expand :: "Tree \<Rightarrow> nat \<Rightarrow> error + Tree" where
  "expand t i =
     (if m_isPassMove (t ! i) then
        (case m_parent (t ! i) of
           None \<Rightarrow> Inl AssertFailed
         | Some p \<Rightarrow> if m_isPassMove (t ! p) then Inr t else expandBody t i)
      else expandBody t i)"

text \<open>
  The value of \<^verbatim>\<open>calcUCB\<close>: a finite binary32 number, or \<^verbatim>\<open>INFINITY\<close>; \<open>score_less\<close>
  is \<open><\<close> on these values.
\<close>

datatype score = Finite float32 | PosInf

fun score_less :: "score \<Rightarrow> score \<Rightarrow> bool" where
  "score_less (Finite a) (Finite b) = (a < b)"
| "score_less (Finite a) PosInf = True"
| "score_less PosInf s = False"

text \<open>
  \<^verbatim>\<open>calcUCB\<close>. \<^verbatim>\<open>logf\<close> and \<^verbatim>\<open>sqrtf\<close> are functions of the C library, not of this
  program: the model takes them as the arguments \<open>logf\<close> and \<open>sqrtf\<close>. Both visit
  counts are converted to \<^verbatim>\<open>float\<close>; the quotient, the product and the sum are rounded.
\<close>

definition calcUCB ::
  "(float32 \<Rightarrow> float32) \<Rightarrow> (float32 \<Rightarrow> float32) \<Rightarrow> Tree \<Rightarrow> nat \<Rightarrow> error + score" where
  "calcUCB logf sqrtf t c =
     (case m_parent (t ! c) of
        None \<Rightarrow> Inl AssertFailed
      | Some p \<Rightarrow>
          if \<not> m_games (t ! c) \<le> m_games (t ! p) then Inl AssertFailed
          else if m_games (t ! c) = 0 then Inr PosInf
          else
            (let bias = fmul EXPLORATION_CONST
                   (sqrtf (fdiv (logf (toFloat (m_games (t ! p)))) (toFloat (m_games (t ! c)))))
             in Inr (Finite (fadd (m_mean (t ! c)) bias))))"

text \<open>
  \<^verbatim>\<open>std::max_element\<close> as an index: it keeps the first of the largest elements, replacing
  the current one only by a strictly larger one.
\<close>

definition max_element :: "('v \<Rightarrow> 'v \<Rightarrow> bool) \<Rightarrow> 'v list \<Rightarrow> nat" where
  "max_element lt vs =
     fold (\<lambda>k largest. if lt (vs ! largest) (vs ! k) then k else largest) [1..<length vs] 0"

text \<open>\<^verbatim>\<open>std::transform\<close> with a function that may fail: the first failure stops it.\<close>

fun transform :: "('a \<Rightarrow> error + 'v) \<Rightarrow> 'a list \<Rightarrow> error + 'v list" where
  "transform eval [] = Inr []"
| "transform eval (c # cs) =
     (case eval c of
        Inl e \<Rightarrow> Inl e
      | Inr v \<Rightarrow> (case transform eval cs of Inl e \<Rightarrow> Inl e | Inr vs \<Rightarrow> Inr (v # vs)))"

definition getChildWithMaxValue ::
  "('v \<Rightarrow> 'v \<Rightarrow> bool) \<Rightarrow> (nat \<Rightarrow> error + 'v) \<Rightarrow> Tree \<Rightarrow> nat \<Rightarrow> error + nat" where
  "getChildWithMaxValue lt eval t i =
     (if m_children (t ! i) = [] then Inl AssertFailed
      else
        (case transform eval (m_children (t ! i)) of
           Inl e \<Rightarrow> Inl e
         | Inr values \<Rightarrow> Inr (m_children (t ! i) ! max_element lt values)))"

definition getChildWithMaxUCB ::
  "(float32 \<Rightarrow> float32) \<Rightarrow> (float32 \<Rightarrow> float32) \<Rightarrow> Tree \<Rightarrow> nat \<Rightarrow> error + nat" where
  "getChildWithMaxUCB logf sqrtf t i =
     getChildWithMaxValue score_less (calcUCB logf sqrtf t) t i"

definition getChildWithMaxVisits :: "Tree \<Rightarrow> nat \<Rightarrow> error + nat" where
  "getChildWithMaxVisits t i = getChildWithMaxValue (<) (\<lambda>c. Inr (m_games (t ! c))) t i"

text \<open>
  The two assignments of \<^verbatim>\<open>propagateResult\<close> on one node. In
  \<^verbatim>\<open>mean_ = (games_ * mean_ + occ) / (games_ + 1)\<close> both visit counts are converted to
  \<^verbatim>\<open>float\<close>, and the product, the sum and the quotient are each rounded; the mean is
  computed from the old visit count, then the count grows by one.
\<close>

definition bump :: "Node \<Rightarrow> float32 \<Rightarrow> Node" where
  "bump n occ =
     n\<lparr>m_mean := fdiv (fadd (fmul (toFloat (m_games n)) (m_mean n)) occ)
                  (toFloat (m_games n + 1)),
       m_games := m_games n + 1\<rparr>"

text \<open>
  \<^verbatim>\<open>Node::propagateResult\<close> recurses along the parent pointers. On a store whose parent
  pointers form a cycle the recursion does not end; the result is then \<open>None\<close>.
\<close>

partial_function (option) propagateResult :: "Tree \<Rightarrow> nat \<Rightarrow> float32 \<Rightarrow> Tree option" where
  "propagateResult t i occ =
     (let t' = t[i := bump (t ! i) occ] in
      case m_parent (t' ! i) of
        None \<Rightarrow> Some t'
      | Some p \<Rightarrow> propagateResult t' p (fsub 1 occ))"

text \<open>
  The random source: the stream of the numbers that the engine will draw.
  \<^verbatim>\<open>randomIndex(n)\<close> asserts \<open>n > 0\<close>, returns 0 for \<open>n = 1\<close> without drawing, and otherwise
  draws a number in \<open>[0, n - 1]\<close>.
\<close>

type_synonym RNG = "nat \<Rightarrow> nat"

definition randomIndex :: "nat \<Rightarrow> RNG \<Rightarrow> error + (nat \<times> RNG)" where
  "randomIndex n rng =
     (if \<not> n > 0 then Inl AssertFailed
      else if n = 1 then Inr (0, rng)
      else Inr (rng 0 mod n, \<lambda>k. rng (Suc k)))"

text \<open>
  The \<^verbatim>\<open>while\<close> loop of \<^verbatim>\<open>Node::playout\<close> on \<open>current\<close>, \<open>player\<close> and \<open>passed\<close>;
  \<^verbatim>\<open>break\<close> leaves the loop before the player is switched. \<open>None\<close> stands for a loop that
  does not end.
\<close>

partial_function (option) playoutLoop ::
  "Board \<Rightarrow> Player \<Rightarrow> bool \<Rightarrow> RNG \<Rightarrow> (error + (Board \<times> Player \<times> RNG)) option" where
  "playoutLoop current player passed rng =
     (if \<not> isFilled current then
        (let boards = getNextStates current in
         if boards = [] then
           (if passed then Some (Inr (current, player, rng))
            else playoutLoop (flipped current) (nextPlayer player) True rng)
         else
           (case randomIndex (length boards) rng of
              Inl e \<Rightarrow> Some (Inl e)
            | Inr (idx, rng') \<Rightarrow> playoutLoop (boards ! idx) (nextPlayer player) False rng'))
      else Some (Inr (current, player, rng)))"

text \<open>\<^verbatim>\<open>Node::playout\<close>, on the store and the random source.\<close>

definition playout :: "Tree \<Rightarrow> nat \<Rightarrow> RNG \<Rightarrow> (error + (Tree \<times> RNG)) option" where
  "playout t i rng =
     (case playoutLoop (m_board (t ! i)) (m_player (t ! i)) (m_isPassMove (t ! i)) rng of
        None \<Rightarrow> None
      | Some (Inl e) \<Rightarrow> Some (Inl e)
      | Some (Inr (current, player, rng')) \<Rightarrow>
          (let occ = getBlackOccupation current in
           case (if player = m_player (t ! i) then propagateResult t i (fsub 1 occ)
                 else propagateResult t i occ) of
             None \<Rightarrow> None
           | Some t' \<Rightarrow> Some (Inr (t', rng'))))"

text \<open>
  Well-formed stores: a node is constructed after its parent, so a parent pointer is a
  smaller index. The two invariants of the data model: a node without visits has no
  children, and a node has at most as many visits as its parent.
\<close>

definition wf_tree :: "Tree \<Rightarrow> bool" where
  "wf_tree t \<longleftrightarrow> (\<forall>i<length t. \<forall>p. m_parent (t ! i) = Some p \<longrightarrow> p < i)"

definition treeInv :: "Tree \<Rightarrow> bool" where
  "treeInv t \<longleftrightarrow>
     (\<forall>i<length t. m_games (t ! i) = 0 \<longrightarrow> m_children (t ! i) = [])
     \<and> (\<forall>i<length t. \<forall>p. m_parent (t ! i) = Some p \<longrightarrow> m_games (t ! i) \<le> m_games (t ! p))"

text \<open>
  The value that node \<open>j\<close> receives when \<^verbatim>\<open>propagateResult(occ)\<close> is called on node \<open>i\<close>
  of a well-formed store: \<open>occ\<close> at \<open>i\<close> itself, \<open>fsub 1 occ\<close> at its parent, and so on up
  to the root; nothing at a node that is not on that path.
\<close>

function received :: "Tree \<Rightarrow> nat \<Rightarrow> float32 \<Rightarrow> nat \<Rightarrow> float32 option" where
  "received t i occ j =
     (if j = i then Some occ
      else
        (case m_parent (t ! i) of
           None \<Rightarrow> None
         | Some p \<Rightarrow> if p < i then received t p (fsub 1 occ) j else None))"
  by pat_completeness auto
termination
  by (relation "measure (\<lambda>(t, i, occ, j). i)") auto

declare received.simps [simp del]

text \<open>
  A store of two nodes. The board of node 0 has one empty cell, at \<open>(7, 7)\<close>, and one white
  stone, at \<open>(6, 7)\<close>; node 1 holds its only successor, a full board, and has been visited
  once.
\<close>

definition FULL_LEAF_TREE :: Tree where
  "FULL_LEAF_TREE =
     [\<lparr>m_board = replicate 62 BLACK @ [WHITE, EMPTY], m_player = P_BLACK,
       m_isPassMove = False, m_games = 2, m_mean = 0, m_parent = None, m_children = [1]\<rparr>,
      \<lparr>m_board = replicate 64 WHITE, m_player = P_WHITE, m_isPassMove = False,
       m_games = 1, m_mean = 1, m_parent = Some 0, m_children = []\<rparr>]"


text \<open>
  The score that \<^verbatim>\<open>calcUCB\<close> computes for a visited child \<open>c\<close> of node \<open>i\<close>, and
  the score of the specification:
  mean + C * sqrt (ln (visits of the parent) / visits of the child), with C the square root
  of 2, in exact real arithmetic.
\<close>

definition ucb32 ::
  "(float32 \<Rightarrow> float32) \<Rightarrow> (float32 \<Rightarrow> float32) \<Rightarrow> Tree \<Rightarrow> nat \<Rightarrow> nat \<Rightarrow> float32" where
  "ucb32 logf sqrtf t i c =
     fadd (m_mean (t ! c))
       (fmul EXPLORATION_CONST
          (sqrtf (fdiv (logf (toFloat (m_games (t ! i)))) (toFloat (m_games (t ! c))))))"

definition ucb :: "Tree \<Rightarrow> nat \<Rightarrow> nat \<Rightarrow> real" where
  "ucb t i c =
     of_rat (m_mean (t ! c))
     + sqrt 2 * sqrt (ln (real (m_games (t ! i))) / real (m_games (t ! c)))"

text \<open>
  A store of three nodes: a root after two playouts, its first child after one playout and
  its second child, not yet visited.
\<close>

definition SMALL_TREE :: Tree where
  "SMALL_TREE =
     [\<lparr>m_board = INITIAL_CELLS, m_player = P_BLACK, m_isPassMove = False,
       m_games = 2, m_mean = 1 / 2, m_parent = None, m_children = [1, 2]\<rparr>,
      \<lparr>m_board = flipPlayer (snd (put 3 2 INITIAL_CELLS)), m_player = P_WHITE,
       m_isPassMove = False, m_games = 1, m_mean = 1 / 2, m_parent = Some 0, m_children = []\<rparr>,
      \<lparr>m_board = flipPlayer (snd (put 2 3 INITIAL_CELLS)), m_player = P_WHITE,
       m_isPassMove = False, m_games = 0, m_mean = 0, m_parent = Some 0, m_children = []\<rparr>]"

text \<open>A store that holds a new root only.\<close>

definition ROOT_ONLY :: Tree where
  "ROOT_ONLY = [Node_new INITIAL_CELLS P_BLACK None]"

text \<open>
  A root with two children after 17 playouts, 8 through each child. The means of the children
  are the binary32 numbers \<open>0x1.d8p-2\<close> and \<open>0x1.d80002p-2\<close>, one unit in the last place
  apart.
\<close>

definition TIE_TREE :: Tree where
  "TIE_TREE =
     [\<lparr>m_board = INITIAL_CELLS, m_player = P_BLACK, m_isPassMove = False,
       m_games = 17, m_mean = 1 / 2, m_parent = None, m_children = [1, 2]\<rparr>,
      \<lparr>m_board = flipPlayer (snd (put 3 2 INITIAL_CELLS)), m_player = P_WHITE,
       m_isPassMove = False, m_games = 8, m_mean = 59 / 128, m_parent = Some 0,
       m_children = []\<rparr>,
      \<lparr>m_board = flipPlayer (snd (put 2 3 INITIAL_CELLS)), m_player = P_WHITE,
       m_isPassMove = False, m_games = 8, m_mean = 15466497 / 33554432, m_parent = Some 0,
       m_children = []\<rparr>]"

text \<open>
  The values of the C library at the two arguments that \<^verbatim>\<open>calcUCB\<close> passes on
  \<open>TIE_TREE\<close>: \<^verbatim>\<open>logf(17.0f)\<close> is \<open>0x1.6aa6bcp+1\<close>, the binary32 number nearest to
  \<open>ln 17 = 2.8332133440...\<close>, and \<^verbatim>\<open>sqrtf\<close> of \<open>0x1.6aa6bcp+1 / 8 = 0x1.6aa6bcp-2\<close> is
  \<open>0x1.30b1cap-1\<close>, the correctly rounded square root that IEEE 754 prescribes (theorem
  \<open>SQRTF_correctly_rounded\<close>). Elsewhere the two functions are not used, and are 0.
\<close>

definition LOGF :: "float32 \<Rightarrow> float32" where
  "LOGF x = (if x = 17 then 5941679 / 2097152 else 0)"

definition SQRTF :: "float32 \<Rightarrow> float32" where
  "SQRTF x = (if x = 5941679 / 16777216 then 9984229 / 16777216 else 0)"

text \<open>A sequence of calls \<^verbatim>\<open>propagateResult(occ)\<close>, each on some node of the store.\<close>

fun propagateAll :: "Tree \<Rightarrow> (nat \<times> float32) list \<Rightarrow> Tree option" where
  "propagateAll t [] = Some t"
| "propagateAll t ((i, occ) # calls) =
     (case propagateResult t i occ of
        None \<Rightarrow> None
      | Some t' \<Rightarrow> propagateAll t' calls)"

text \<open>The values that node \<open>j\<close> receives from such a sequence, in order.\<close>

fun receivedAll :: "Tree \<Rightarrow> (nat \<times> float32) list \<Rightarrow> nat \<Rightarrow> float32 list" where
  "receivedAll t [] j = []"
| "receivedAll t ((i, occ) # calls) j =
     (case received t i occ j of None \<Rightarrow> [] | Some w \<Rightarrow> [w]) @ receivedAll t calls j"

text \<open>The number of empty cells, which a playout decreases.\<close>

definition emptyCount :: "Board \<Rightarrow> nat" where
  "emptyCount b = length (filter (\<lambda>cell. cell = EMPTY) b)"

text \<open>The path from a node to the root along the parent pointers of a well-formed store.\<close>

function pathToRoot :: "Tree \<Rightarrow> nat \<Rightarrow> nat list" where
  "pathToRoot t i =
     i # (case m_parent (t ! i) of
            None \<Rightarrow> []
          | Some p \<Rightarrow> if p < i then pathToRoot t p else [])"
  by pat_completeness auto
termination
  by (relation "measure (\<lambda>(t, i). i)") auto

declare pathToRoot.simps [simp del]



section \<open>Properties of the arithmetic\<close>

text \<open>
  Rounding is monotone and idempotent, and exact on the natural numbers up to \<open>2 ^ 24\<close>.
  The update of a mean by \<^verbatim>\<open>propagateResult\<close> keeps it between 0 and 1, whatever the visit
  count (lemma \<open>mean_update_unit\<close>).
\<close>

text \<open>For evaluation the powers of two are computed on the integers.\<close>

lemma roundPos_code [code]:
  "roundPos x =
     (let y = x * of_int (2 ^ 149); k = ulpExp y
      in of_int (rne (y / of_int (2 ^ k)) * 2 ^ k) / of_int (2 ^ 149))"
  by (simp add: roundPos_def Let_def)

lemma rne_of_int: "rne (of_int z) = z"
  by (simp add: rne_def)

lemma rne_floor: "\<lfloor>r\<rfloor> \<le> rne r" "rne r \<le> \<lfloor>r\<rfloor> + 1"
  by (simp_all add: rne_def)

lemma rne_mono:
  assumes "r \<le> s"
  shows "rne r \<le> rne s"
proof (cases "\<lfloor>r\<rfloor> < \<lfloor>s\<rfloor>")
  case True
  then show ?thesis using rne_floor(2) [of r] rne_floor(1) [of s] by linarith
next
  case False
  with assms have "\<lfloor>r\<rfloor> = \<lfloor>s\<rfloor>" using floor_mono [of r s] by linarith
  then show ?thesis using assms by (auto simp: rne_def)
qed

lemma bits_bounds: "0 < n \<Longrightarrow> 2 ^ (bits n - 1) \<le> n \<and> n < 2 ^ bits n"
proof (induction n rule: bits.induct)
  case (1 n)
  show ?case
  proof (cases "n div 2 = 0")
    case True
    with "1.prems" have n: "n = 1" by linarith
    have "bits 1 = 1" by (simp add: bits.simps [of 1] bits.simps [of 0])
    then show ?thesis by (simp add: n)
  next
    case False
    with "1.prems" have p: "0 < n div 2" by linarith
    from "1.IH" [OF _ p] "1.prems"
    have ih: "2 ^ (bits (n div 2) - 1) \<le> n div 2" "n div 2 < 2 ^ bits (n div 2)" by simp_all
    have b: "bits n = Suc (bits (n div 2))" using "1.prems" by (subst bits.simps) simp
    have pos: "0 < bits (n div 2)" using p by (subst bits.simps) simp
    then have e: "2 ^ bits (n div 2) = (2::int) * 2 ^ (bits (n div 2) - 1)"
      by (cases "bits (n div 2)") simp_all
    have "2 * 2 ^ (bits (n div 2) - 1) \<le> n" using ih(1) by linarith
    moreover have "n < 2 * 2 ^ bits (n div 2)" using ih(2) by linarith
    ultimately show ?thesis by (simp add: b e)
  qed
qed

lemma bits_nonpos: "n \<le> 0 \<Longrightarrow> bits n = 0"
  by (subst bits.simps) simp

lemma bits_mono:
  assumes "m \<le> n"
  shows "bits m \<le> bits n"
proof (cases "0 < m")
  case False
  then show ?thesis by (simp add: bits_nonpos)
next
  case True
  with assms have n: "0 < n" by simp
  show ?thesis
  proof (rule ccontr)
    assume "\<not> bits m \<le> bits n"
    then have "bits n \<le> bits m - 1" by simp
    then have "(2::int) ^ bits n \<le> 2 ^ (bits m - 1)" by (intro power_increasing) simp_all
    with bits_bounds [OF True] bits_bounds [OF n] assms show False by linarith
  qed
qed

lemma ulpExp_upper:
  assumes "0 \<le> y"
  shows "y < 2 ^ (ulpExp y + 24)"
proof (cases "0 < \<lfloor>y\<rfloor>")
  case True
  from bits_bounds [OF True] have "\<lfloor>y\<rfloor> < 2 ^ bits \<lfloor>y\<rfloor>" by simp
  also have "(2::int) ^ bits \<lfloor>y\<rfloor> \<le> 2 ^ (ulpExp y + 24)"
    by (intro power_increasing) (simp_all add: ulpExp_def)
  finally have "\<lfloor>y\<rfloor> + 1 \<le> 2 ^ (ulpExp y + 24)" by simp
  then have "(of_int (\<lfloor>y\<rfloor> + 1) :: rat) \<le> of_int (2 ^ (ulpExp y + 24))"
    by (simp only: of_int_le_iff)
  moreover have "y < of_int (\<lfloor>y\<rfloor> + 1)" by linarith
  ultimately show ?thesis by simp
next
  case False
  with assms have "\<lfloor>y\<rfloor> = 0" by (simp add: order.antisym)
  then have "y < 1" by linarith
  also have "(1::rat) \<le> 2 ^ (ulpExp y + 24)" by simp
  finally show ?thesis .
qed

lemma ulpExp_lower:
  assumes "0 < ulpExp y"
  shows "2 ^ (ulpExp y + 23) \<le> y"
proof -
  from assms have b: "bits \<lfloor>y\<rfloor> = ulpExp y + 24" by (simp add: ulpExp_def)
  then have "0 < \<lfloor>y\<rfloor>" using bits_nonpos [of "\<lfloor>y\<rfloor>"] by (cases "0 < \<lfloor>y\<rfloor>") simp_all
  from b have "bits \<lfloor>y\<rfloor> - 1 = ulpExp y + 23" by simp
  with bits_bounds [OF \<open>0 < \<lfloor>y\<rfloor>\<close>] have "2 ^ (ulpExp y + 23) \<le> \<lfloor>y\<rfloor>" by metis
  then have "(2::rat) ^ (ulpExp y + 23) \<le> of_int \<lfloor>y\<rfloor>"
    by (metis of_int_le_iff of_int_numeral of_int_power)
  then show ?thesis using of_int_floor_le [of y] by linarith
qed

lemma ulpExp_mono: "y \<le> y' \<Longrightarrow> ulpExp y \<le> ulpExp y'"
  unfolding ulpExp_def using bits_mono [OF floor_mono, of y y'] by simp

lemma roundPos_mono:
  assumes "0 \<le> x" "x \<le> x'"
  shows "roundPos x \<le> roundPos x'"
proof -
  let ?y = "x * 2 ^ 149" and ?y' = "x' * 2 ^ 149"
  let ?k = "ulpExp ?y" and ?k' = "ulpExp ?y'"
  have y: "0 \<le> ?y" "?y \<le> ?y'" using assms by simp_all
  have kk: "?k \<le> ?k'" by (rule ulpExp_mono [OF y(2)])
  show ?thesis
  proof (cases "?k = ?k'")
    case True
    have "?y / 2 ^ ?k \<le> ?y' / 2 ^ ?k" using y(2) by (simp add: divide_right_mono)
    then have "rne (?y / 2 ^ ?k) \<le> rne (?y' / 2 ^ ?k)" by (rule rne_mono)
    then have "(of_int (rne (?y / 2 ^ ?k)) :: rat) \<le> of_int (rne (?y' / 2 ^ ?k))" by simp
    then have "of_int (rne (?y / 2 ^ ?k)) * 2 ^ ?k / 2 ^ 149
        \<le> (of_int (rne (?y' / 2 ^ ?k)) :: rat) * 2 ^ ?k / 2 ^ 149"
      by (intro divide_right_mono mult_right_mono) simp_all
    then show ?thesis unfolding roundPos_def True [symmetric] .
  next
    case False
    with kk have lt: "?k < ?k'" by simp
    have "?y / 2 ^ ?k \<le> 2 ^ 24"
      using ulpExp_upper [OF y(1)] by (simp add: power_add divide_le_eq)
    then have "rne (?y / 2 ^ ?k) \<le> rne (of_int (2 ^ 24))" by (intro rne_mono) simp
    then have a: "(of_int (rne (?y / 2 ^ ?k)) :: rat) \<le> 2 ^ 24"
      unfolding rne_of_int by (metis of_int_le_iff of_int_numeral of_int_power)
    have "(2::rat) ^ 23 \<le> ?y' / 2 ^ ?k'"
      using ulpExp_lower [of ?y'] lt by (simp add: power_add le_divide_eq)
    then have "rne (of_int (2 ^ 23)) \<le> rne (?y' / 2 ^ ?k')" by (intro rne_mono) simp
    then have b: "(2::rat) ^ 23 \<le> of_int (rne (?y' / 2 ^ ?k'))"
      unfolding rne_of_int by (metis of_int_le_iff of_int_numeral of_int_power)
    have "of_int (rne (?y / 2 ^ ?k)) * 2 ^ ?k \<le> (2::rat) ^ 24 * 2 ^ ?k"
      using a by (intro mult_right_mono) simp_all
    also have "\<dots> = 2 ^ (?k + 24)" by (simp add: power_add)
    also have "\<dots> \<le> 2 ^ (?k' + 23)" using lt by (intro power_increasing) simp_all
    also have "\<dots> = 2 ^ 23 * 2 ^ ?k'" by (simp add: power_add)
    also have "\<dots> \<le> of_int (rne (?y' / 2 ^ ?k')) * 2 ^ ?k'"
      using b by (intro mult_right_mono) simp_all
    finally have "of_int (rne (?y / 2 ^ ?k)) * 2 ^ ?k / 2 ^ 149
        \<le> (of_int (rne (?y' / 2 ^ ?k')) :: rat) * 2 ^ ?k' / 2 ^ 149"
      by (intro divide_right_mono) simp_all
    then show ?thesis unfolding roundPos_def .
  qed
qed

lemma roundPos_exact:
  assumes "x * 2 ^ 149 / 2 ^ ulpExp (x * 2 ^ 149) = of_int z"
  shows "roundPos x = x"
proof -
  have "roundPos x = (x * 2 ^ 149 / 2 ^ ulpExp (x * 2 ^ 149)) * 2 ^ ulpExp (x * 2 ^ 149) / 2 ^ 149"
    unfolding roundPos_def assms rne_of_int by simp
  then show ?thesis by simp
qed

lemma scaled_nat_integral:
  assumes "k \<le> N"
  shows "(of_nat n :: rat) * 2 ^ N / 2 ^ k = of_int (int n * 2 ^ (N - k))"
proof -
  have "(2::rat) ^ N = 2 ^ (N - k) * 2 ^ k"
    using assms by (simp add: power_add [symmetric])
  then show ?thesis by simp
qed

lemma scaled_nat_exact:
  assumes yn: "(of_nat n :: rat) * 2 ^ N \<le> 2 ^ (N + 24)"
  shows "\<exists>z. (of_nat n :: rat) * 2 ^ N / 2 ^ ulpExp (of_nat n * 2 ^ N) = of_int z"
proof (cases "ulpExp (of_nat n * 2 ^ N) \<le> N")
  case True
  then show ?thesis using scaled_nat_integral by blast
next
  case False
  let ?y = "(of_nat n :: rat) * 2 ^ N"
  let ?k = "ulpExp ?y"
  from False have k: "0 < ?k" "N + 1 \<le> ?k" by simp_all
  from ulpExp_lower [OF k(1)] yn have "(2::rat) ^ (?k + 23) \<le> 2 ^ (N + 24)"
    by (rule order_trans)
  then have "?k + 23 \<le> N + 24" by (simp only: power_increasing_iff)
  with k(2) have kN: "?k = N + 1" by simp
  have "?k + 23 = N + 24" using kN by simp
  with ulpExp_lower [OF k(1)] have "(2::rat) ^ (N + 24) \<le> ?y" by metis
  with yn have y: "?y = 2 ^ (N + 24)" by simp
  have "?y / 2 ^ ?k = ?y / 2 ^ (N + 1)" by (simp only: kN)
  also have "\<dots> = 2 ^ (N + 24) / 2 ^ (N + 1)" by (simp only: y)
  also have "\<dots> = of_int (2 ^ 23)" by (simp add: power_add)
  finally show ?thesis by blast
qed

lemma roundPos_nat:
  assumes "n \<le> 2 ^ 24"
  shows "roundPos (of_nat n) = of_nat n"
proof -
  have "(of_nat n :: rat) \<le> of_nat (2 ^ 24)" using assms by (simp only: of_nat_le_iff)
  then have "(of_nat n :: rat) * 2 ^ 149 \<le> 2 ^ 24 * 2 ^ 149"
    by (intro mult_right_mono) simp_all
  also have "(2::rat) ^ 24 * 2 ^ 149 = 2 ^ (149 + 24)" by (simp only: power_add mult.commute)
  finally obtain z where "(of_nat n :: rat) * 2 ^ 149 / 2 ^ ulpExp (of_nat n * 2 ^ 149) = of_int z"
    using scaled_nat_exact [of n 149] by blast
  then show ?thesis by (rule roundPos_exact)
qed

lemma round32_mono: "0 \<le> x \<Longrightarrow> x \<le> x' \<Longrightarrow> round32 x \<le> round32 x'"
  using roundPos_mono [of x x'] by (simp add: round32_def)

lemma toFloat_exact: "n \<le> 2 ^ 24 \<Longrightarrow> toFloat n = of_nat n"
  using roundPos_nat [of n] by (simp add: toFloat_def round32_def)

lemma round32_0: "round32 0 = 0"
  using toFloat_exact [of 0] by (simp add: toFloat_def)

lemma round32_1: "round32 1 = 1"
  using toFloat_exact [of 1] by (simp add: toFloat_def)

lemma round32_unit: "0 \<le> x \<Longrightarrow> x \<le> 1 \<Longrightarrow> 0 \<le> round32 x \<and> round32 x \<le> 1"
  using round32_mono [of 0 x] round32_mono [of x 1] by (simp add: round32_0 round32_1)

lemma fsub_unit: "0 \<le> v \<Longrightarrow> v \<le> 1 \<Longrightarrow> 0 \<le> fsub 1 v \<and> fsub 1 v \<le> 1"
  unfolding fsub_def by (rule round32_unit) simp_all

lemma ulpExp_eq:
  assumes "0 < k" "2 ^ (k + 23) \<le> y" "y < 2 ^ (k + 24)"
  shows "ulpExp y = k"
proof -
  have y0: "0 \<le> y" using assms(2) by (rule order_trans [rotated]) simp
  have "(2::rat) ^ (k + 23) < 2 ^ (ulpExp y + 24)"
    using assms(2) ulpExp_upper [OF y0] by (rule le_less_trans)
  then have "k + 23 < ulpExp y + 24" by (simp only: power_strict_increasing_iff)
  then have a: "k \<le> ulpExp y" by simp
  have "ulpExp y \<le> k"
  proof (rule ccontr)
    assume "\<not> ulpExp y \<le> k"
    then have p: "0 < ulpExp y" "k < ulpExp y" by simp_all
    have "(2::rat) ^ (ulpExp y + 23) < 2 ^ (k + 24)"
      using ulpExp_lower [OF p(1)] assms(3) by (rule le_less_trans)
    then have "ulpExp y + 23 < k + 24" by (simp only: power_strict_increasing_iff)
    with p(2) show False by simp
  qed
  with a show ?thesis by simp
qed

text \<open>A rounded number is a binary32 number: rounding it again does not change it.\<close>

lemma roundPos_scaled:
  "roundPos x * 2 ^ 149 = of_int (rne (x * 2 ^ 149 / 2 ^ ulpExp (x * 2 ^ 149))) * 2 ^ ulpExp (x * 2 ^ 149)"
  by (simp add: roundPos_def)

lemma rne_le_pow24:
  assumes "0 \<le> y"
  shows "0 \<le> rne (y / 2 ^ ulpExp y)" "rne (y / 2 ^ ulpExp y) \<le> 2 ^ 24"
proof -
  have "rne (of_int 0) \<le> rne (y / 2 ^ ulpExp y)" using assms by (intro rne_mono) simp
  then show "0 \<le> rne (y / 2 ^ ulpExp y)" unfolding rne_of_int .
  have "y / 2 ^ ulpExp y \<le> 2 ^ 24"
    using ulpExp_upper [OF assms] by (simp add: power_add divide_le_eq)
  then have "rne (y / 2 ^ ulpExp y) \<le> rne (of_int (2 ^ 24))" by (intro rne_mono) simp
  then show "rne (y / 2 ^ ulpExp y) \<le> 2 ^ 24" unfolding rne_of_int .
qed

lemma roundPos_idem:
  assumes "0 \<le> x"
  shows "roundPos (roundPos x) = roundPos x"
proof -
  define y where "y = x * 2 ^ 149"
  define k where "k = ulpExp y"
  define n where "n = rne (y / 2 ^ k)"
  have y0: "0 \<le> y" using assms by (simp add: y_def)
  have n: "0 \<le> n" "n \<le> 2 ^ 24" using rne_le_pow24 [OF y0] by (simp_all add: n_def k_def)
  have sc: "roundPos x * 2 ^ 149 = of_nat (nat n) * 2 ^ k"
    using n(1) unfolding roundPos_scaled n_def k_def y_def by simp
  have "(of_int n :: rat) \<le> of_int (2 ^ 24)" using n(2) by (simp only: of_int_le_iff)
  then have "(of_nat (nat n) :: rat) \<le> 2 ^ 24" using n(1) by simp
  then have "(of_nat (nat n) :: rat) * 2 ^ k \<le> 2 ^ 24 * 2 ^ k"
    by (intro mult_right_mono) simp_all
  also have "(2::rat) ^ 24 * 2 ^ k = 2 ^ (k + 24)" by (simp only: power_add mult.commute)
  finally obtain z where "(of_nat (nat n) :: rat) * 2 ^ k / 2 ^ ulpExp (of_nat (nat n) * 2 ^ k) = of_int z"
    using scaled_nat_exact [of "nat n" k] by blast
  then have "roundPos x * 2 ^ 149 / 2 ^ ulpExp (roundPos x * 2 ^ 149) = of_int z"
    unfolding sc .
  then show ?thesis by (rule roundPos_exact)
qed


text \<open>
  The conversion of a visit count may round it up, to \<open>F\<close>. Then \<open>F + 1\<close> rounds to \<open>F\<close>
  again: the unit in the last place of \<open>F\<close> is at least 2, and if it is 2, the significand
  of \<open>F\<close> is even, since the count was a tie. So the sum of \<^verbatim>\<open>propagateResult\<close> does not
  exceed the converted next count.
\<close>

lemma rne_small_frac:
  assumes "0 \<le> f" "f < 1 / 2"
  shows "rne (of_int z + f) = z"
proof -
  have fl: "\<lfloor>of_int z + f\<rfloor> = z" using assms by (simp add: floor_unique)
  show ?thesis unfolding rne_def fl using assms by simp
qed

lemma rne_half: "rne (of_int z + 1 / 2) = (if even z then z else z + 1)"
proof -
  have fl: "\<lfloor>of_int z + (1 / 2 :: rat)\<rfloor> = z" by (simp add: floor_unique)
  show ?thesis unfolding rne_def fl by simp
qed

lemma rne_up_even:
  assumes "of_int a / 2 < (of_int (rne (of_int a / 2)) :: rat)"
  shows "even (rne (of_int a / 2))"
proof (cases "even a")
  case True
  then obtain q where "a = 2 * q" by (auto elim: evenE)
  then have "(of_int a :: rat) / 2 = of_int q" by simp
  with assms show ?thesis by (simp add: rne_of_int)
next
  case False
  then obtain q where q: "a = 2 * q + 1" by (auto elim: oddE)
  then have h: "(of_int a :: rat) / 2 = of_int q + 1 / 2" by (simp add: field_simps)
  show ?thesis
  proof (cases "even q")
    case True
    with assms show ?thesis unfolding h rne_half by simp
  next
    case False
    then show ?thesis unfolding h rne_half by simp
  qed
qed

lemma roundPos_succ_up:
  assumes up: "of_nat g < roundPos (of_nat g)"
  shows "roundPos (roundPos (of_nat g) + 1) = roundPos (of_nat g)"
proof -
  define S :: rat where "S = 2 ^ 149"
  define y :: rat where "y = of_nat g * S"
  define k where "k = ulpExp y"
  define n where "n = rne (y / 2 ^ k)"
  define F where "F = roundPos (of_nat g)"
  have S0: "0 < S" by (simp add: S_def)
  have y0: "0 \<le> y" using S0 by (simp add: y_def)
  have n: "0 \<le> n" "n \<le> 2 ^ 24" using rne_le_pow24 [OF y0] by (simp_all add: n_def k_def)
  have FS: "F * S = of_int n * 2 ^ k"
    unfolding F_def S_def n_def k_def y_def by (rule roundPos_scaled)
  have "y < F * S" using up S0 by (simp add: y_def F_def)
  then have gt: "y / 2 ^ k < of_int n" unfolding FS by (simp add: divide_less_eq)
  have k149: "149 < k"
  proof (rule ccontr)
    assume "\<not> 149 < k"
    then have "k \<le> 149" by simp
    from scaled_nat_integral [OF this, of g]
    have "y / 2 ^ k = of_int (int g * 2 ^ (149 - k))" by (simp only: y_def S_def)
    then have "of_int n = y / 2 ^ k" unfolding n_def by (simp only: rne_of_int)
    with gt show False by simp
  qed
  define e where "e = k - 149"
  have e: "0 < e" "k = e + 149" using k149 by (simp_all add: e_def)
  have k2: "(2::rat) ^ k = 2 ^ e * S" by (simp only: e power_add S_def)
  have Sk: "S < 2 ^ k"
  proof -
    have "(2::rat) ^ 149 < 2 ^ k" using k149 by (simp only: power_strict_increasing_iff)
    then show ?thesis by (simp only: S_def)
  qed
  define Y where "Y = (F + 1) * S"
  have Y: "Y = of_int n * 2 ^ k + S" by (simp add: Y_def algebra_simps FS)
  have yY: "y \<le> Y"
  proof -
    have "y \<le> F * S" using \<open>y < F * S\<close> by simp
    also have "\<dots> \<le> Y" using S0 by (simp add: Y_def algebra_simps)
    finally show ?thesis .
  qed
  have k0: "0 < k" using k149 by simp
  have res: "of_int (rne (Y / 2 ^ ulpExp Y)) * 2 ^ ulpExp Y = (of_int n :: rat) * 2 ^ k"
  proof (cases "n = 2 ^ 24")
    case True
    have nr: "(of_int n :: rat) = 2 ^ 24" unfolding True by simp
    have Y1: "Y = 2 ^ (k + 24) + S" unfolding Y nr by (simp add: power_add)
    have k24: "k + 1 + 23 = k + 24" by simp
    have lo: "2 ^ (k + 1 + 23) \<le> Y" unfolding Y1 k24 using S0 by simp
    have "S < 2 ^ (k + 24)"
      using Sk by (rule less_le_trans) (rule power_increasing, simp_all)
    then have hi: "Y < 2 ^ (k + 1 + 24)" unfolding Y1 by (simp add: power_add)
    have k1: "ulpExp Y = k + 1" by (rule ulpExp_eq [OF _ lo hi]) simp
    have Y2: "Y = 2 ^ 24 * (2 ^ e * S) + S" unfolding Y nr k2 ..
    have "Y / 2 ^ (k + 1) = of_int (2 ^ 23) + 1 / (2 * 2 ^ e)"
      unfolding Y2 power_add power_one_right k2 using S0 by (simp add: field_simps)
    moreover have "(0::rat) \<le> 1 / (2 * 2 ^ e)" by simp
    moreover have "1 / (2 * 2 ^ e) < (1 / 2 :: rat)"
    proof -
      have "(2::rat) ^ 0 < 2 ^ e" using e(1) by (simp only: power_strict_increasing_iff)
      then show ?thesis by (simp add: field_simps)
    qed
    ultimately have "rne (Y / 2 ^ (k + 1)) = 2 ^ 23" by (simp only: rne_small_frac)
    then show ?thesis unfolding k1 nr by simp
  next
    case False
    with n(2) have "n \<le> 2 ^ 24 - 1" by simp
    then have "(of_int n :: rat) \<le> of_int (2 ^ 24 - 1)" by (simp only: of_int_le_iff)
    then have nr: "(of_int n :: rat) \<le> 2 ^ 24 - 1" by simp
    have "of_int n * 2 ^ k \<le> ((2::rat) ^ 24 - 1) * 2 ^ k"
      using nr by (intro mult_right_mono) simp_all
    also have "\<dots> = 2 ^ (k + 24) - 2 ^ k" by (simp add: power_add algebra_simps)
    finally have hi: "Y < 2 ^ (k + 24)" unfolding Y using Sk by simp
    have lo: "2 ^ (k + 23) \<le> Y"
      using ulpExp_lower [of y] k0 yY unfolding k_def by simp
    have kk: "ulpExp Y = k" by (rule ulpExp_eq [OF k0 lo hi])
    have q: "Y / 2 ^ k = of_int n + 1 / 2 ^ e"
      unfolding Y k2 using S0 by (simp add: field_simps)
    have "rne (Y / 2 ^ k) = n"
    proof (cases "e = 1")
      case True
      have yk: "y / 2 ^ k = of_int (int g) / 2"
        unfolding y_def k2 True using S0 by simp
      from gt have "even n" unfolding n_def yk by (rule rne_up_even)
      then show ?thesis unfolding q True by (simp add: rne_half)
    next
      case False
      with e(1) have "2 \<le> e" by simp
      then have "(2::rat) ^ 2 \<le> 2 ^ e" by (simp only: power_increasing_iff)
      then have "1 / 2 ^ e < (1 / 2 :: rat)" by (simp add: field_simps)
      moreover have "(0::rat) \<le> 1 / 2 ^ e" by simp
      ultimately show ?thesis unfolding q by (simp only: rne_small_frac)
    qed
    then show ?thesis unfolding kk by simp
  qed
  have "roundPos (F + 1) * S = of_int n * 2 ^ k"
    unfolding S_def roundPos_scaled using res unfolding Y_def S_def .
  then have "roundPos (F + 1) * S = F * S" by (simp only: FS)
  then show ?thesis using S0 by (simp add: F_def)
qed

lemma roundPos_succ:
  "roundPos (roundPos (of_nat g) + 1) \<le> roundPos (of_nat (g + 1))"
proof (cases "of_nat g < roundPos (of_nat g)")
  case True
  have "roundPos (of_nat g) \<le> roundPos (of_nat (g + 1))"
    by (rule roundPos_mono) simp_all
  then show ?thesis unfolding roundPos_succ_up [OF True] .
next
  case False
  have "roundPos (of_int 0) \<le> roundPos (of_nat g)" by (intro roundPos_mono) simp_all
  then have "0 \<le> roundPos (of_nat g)" using roundPos_nat [of 0] by simp
  then show ?thesis using False by (intro roundPos_mono) simp_all
qed


lemma round32_nonneg: "0 \<le> x \<Longrightarrow> 0 \<le> round32 x"
  using round32_mono [of 0 x] by (simp add: round32_0)

lemma round32_idem:
  assumes "0 \<le> x"
  shows "round32 (round32 x) = round32 x"
proof -
  have "0 \<le> roundPos x" using round32_nonneg [OF assms] assms by (simp add: round32_def)
  then show ?thesis using assms by (simp add: round32_def roundPos_idem)
qed

lemma round32_succ: "round32 (toFloat g + 1) \<le> toFloat (g + 1)"
proof -
  have "0 \<le> toFloat g" unfolding toFloat_def by (rule round32_nonneg) simp
  then have "\<not> toFloat g + 1 < 0" by simp
  moreover have t: "toFloat n = roundPos (of_nat n)" for n by (simp add: toFloat_def round32_def)
  ultimately have "round32 (toFloat g + 1) = roundPos (roundPos (of_nat g) + 1)"
    by (simp add: round32_def t)
  then show ?thesis unfolding t [of "g + 1"] by (simp only: roundPos_succ)
qed

lemma mean_update_unit:
  assumes m: "0 \<le> m" "m \<le> 1" and v: "0 \<le> v" "v \<le> 1"
  shows "0 \<le> fdiv (fadd (fmul (toFloat g) m) v) (toFloat (g + 1))"
    and "fdiv (fadd (fmul (toFloat g) m) v) (toFloat (g + 1)) \<le> 1"
proof -
  define F where "F = toFloat g"
  define G where "G = toFloat (g + 1)"
  have F0: "0 \<le> F" unfolding F_def toFloat_def by (rule round32_nonneg) simp
  have FF: "round32 F = F" unfolding F_def toFloat_def by (rule round32_idem) simp
  have "round32 1 \<le> round32 (of_nat (g + 1))" by (rule round32_mono) simp_all
  then have G1: "1 \<le> G" by (simp add: G_def toFloat_def round32_1)
  let ?p = "fmul F m"
  have Fm: "0 \<le> F * m" "F * m \<le> F" using F0 m by (simp_all add: mult_left_le)
  have p0: "0 \<le> ?p" unfolding fmul_def using Fm(1) by (rule round32_nonneg)
  have "?p \<le> round32 F" unfolding fmul_def using Fm by (rule round32_mono)
  then have p1: "?p \<le> F" unfolding FF .
  let ?s = "fadd ?p v"
  have pv: "0 \<le> ?p + v" "?p + v \<le> F + 1" using p0 p1 v by simp_all
  have s0: "0 \<le> ?s" unfolding fadd_def using pv(1) by (rule round32_nonneg)
  have "?s \<le> round32 (F + 1)" unfolding fadd_def using pv by (rule round32_mono)
  also have "\<dots> \<le> G" unfolding F_def G_def by (rule round32_succ)
  finally have s1: "?s \<le> G" .
  have q: "0 \<le> ?s / G" "?s / G \<le> 1"
    using s0 s1 G1 by (simp_all add: divide_le_eq)
  from round32_unit [OF q] show "0 \<le> fdiv (fadd (fmul (toFloat g) m) v) (toFloat (g + 1))"
    and "fdiv (fadd (fmul (toFloat g) m) v) (toFloat (g + 1)) \<le> 1"
    unfolding fdiv_def F_def G_def by simp_all
qed

lemma EXPLORATION_CONST_value: "EXPLORATION_CONST = 11863283 / 8388608"
  by code_simp



section \<open>Properties of the board\<close>

subsection \<open>Parsing a layout\<close>

lemma tolower_idem: "tolower (tolower chr) = tolower chr"
  by (auto simp: tolower_def)

lemma tolower_toupper: "tolower (toupper chr) = tolower chr"
  by (auto simp: tolower_def toupper_def)

lemma parseCell_tolower: "parseCell (tolower chr) = parseCell chr"
  by (simp add: parseCell_def tolower_idem)

lemma parseCell_toupper: "parseCell (toupper chr) = parseCell chr"
  by (simp add: parseCell_def tolower_toupper)

lemma Board_loop_cong:
  "map parseCell str = map parseCell str' \<Longrightarrow> Board_loop cells idx str = Board_loop cells idx str'"
proof (induction str arbitrary: cells idx str')
  case Nil
  then show ?case by simp
next
  case (Cons chr str)
  then obtain chr' str'' where s: "str' = chr' # str''" by (cases str') auto
  with Cons.prems have h: "parseCell chr = parseCell chr'"
    and t: "map parseCell str = map parseCell str''"
    by simp_all
  show ?case using Cons.IH [OF t] h by (simp add: s split: sum.splits)
qed

text \<open>A string of at most \<open>BOARD_CELLS - idx\<close> recognised characters overwrites the cells from \<open>idx\<close> on.\<close>

lemma Board_loop_ok:
  "map parseCell str = map Inr cs \<Longrightarrow> idx + length str \<le> BOARD_CELLS \<Longrightarrow>
   idx + length str \<le> length cells \<Longrightarrow>
   Board_loop cells idx str =
     Inr (take idx cells @ cs @ drop (idx + length cs) cells, idx + length cs)"
proof (induction str arbitrary: cells idx cs)
  case Nil
  then show ?case by simp
next
  case (Cons chr str)
  then obtain c cs' where cs: "cs = c # cs'" by (cases cs) auto
  with Cons.prems have p: "parseCell chr = Inr c" and t: "map parseCell str = map Inr cs'"
    by simp_all
  have lt: "idx < BOARD_CELLS" "idx < length cells" using Cons.prems by simp_all
  have ih: "Board_loop (cells[idx := c]) (idx + 1) str =
      Inr (take (idx + 1) (cells[idx := c]) @ cs' @ drop (idx + 1 + length cs') (cells[idx := c]),
           idx + 1 + length cs')"
    using Cons.prems by (intro Cons.IH [OF t]) simp_all
  have tk: "take (Suc idx) (cells[idx := c]) = take idx cells @ [c]"
    using lt take_Suc_conv_app_nth [of idx "cells[idx := c]"] by simp
  show ?case using ih lt p by (simp add: cs tk)
qed

lemma parse_INITIAL: "map parseCell INITIAL_BOARD = map Inr INITIAL_CELLS"
  by code_simp

lemma Board_of_INITIAL:
  assumes "length cells = BOARD_CELLS"
  shows "Board_of cells INITIAL_BOARD = Inr INITIAL_CELLS"
proof -
  have l: "length INITIAL_BOARD = 64" by (simp add: INITIAL_BOARD_def)
  have lo: "length INITIAL_CELLS = 64" by (simp add: INITIAL_CELLS_def)
  have "Board_loop cells 0 INITIAL_BOARD =
      Inr (take 0 cells @ INITIAL_CELLS @ drop (0 + length INITIAL_CELLS) cells,
           0 + length INITIAL_CELLS)"
    using assms l
    by (intro Board_loop_ok [OF parse_INITIAL]) (simp_all add: BOARD_CELLS_def BOARD_SIZE_def)
  then show ?thesis
    using assms lo by (simp add: Board_of_def BOARD_CELLS_def BOARD_SIZE_def)
qed

lemma parseCell_chars:
  "parseCell (CHR ''X'') = Inr BLACK" "parseCell (CHR ''x'') = Inr BLACK"
  "parseCell (CHR ''O'') = Inr WHITE" "parseCell (CHR ''o'') = Inr WHITE"
  "parseCell (CHR ''.'') = Inr EMPTY"
  by code_simp+

text \<open>
  Claim C10. \<^verbatim>\<open>parseCell\<close> lower-cases its argument first: \<open>X\<close> and \<open>x\<close> both parse to
  \<open>BLACK\<close>, \<open>O\<close> and \<open>o\<close> both to \<open>WHITE\<close>, and the constructor gives the same
  result (the same board, or the same failure) for a layout string, for its lower-case form
  and for its upper-case form, whatever the array held before. For a layout of
  \<open>BOARD_CELLS\<close> characters, each of them \<open>X\<close>, \<open>x\<close>, \<open>O\<close>, \<open>o\<close> or \<open>.\<close>, this result
  is a board, which holds at every index the cell that the character at that index stands
  for.
\<close>

theorem parse_case_insensitive:
  "parseCell (CHR ''X'') = Inr BLACK \<and> parseCell (CHR ''x'') = Inr BLACK
   \<and> parseCell (CHR ''O'') = Inr WHITE \<and> parseCell (CHR ''o'') = Inr WHITE
   \<and> Board_of cells (map tolower str) = Board_of cells str
   \<and> Board_of cells (map toupper str) = Board_of cells str
   \<and> (length cells = BOARD_CELLS \<and> length str = BOARD_CELLS
        \<and> set str \<subseteq> {CHR ''X'', CHR ''x'', CHR ''O'', CHR ''o'', CHR ''.''} \<longrightarrow>
       (\<exists>b. Board_of cells str = Inr b
          \<and> Board_of cells (map tolower str) = Inr b
          \<and> Board_of cells (map toupper str) = Inr b
          \<and> length b = BOARD_CELLS
          \<and> (\<forall>k<BOARD_CELLS.
                b ! k = (if str ! k = CHR ''X'' \<or> str ! k = CHR ''x'' then BLACK
                         else if str ! k = CHR ''O'' \<or> str ! k = CHR ''o'' then WHITE
                         else EMPTY))))"
proof -
  have a: "Board_loop cells 0 (map tolower str) = Board_loop cells 0 str"
    by (rule Board_loop_cong) (simp add: parseCell_tolower)
  have b: "Board_loop cells 0 (map toupper str) = Board_loop cells 0 str"
    by (rule Board_loop_cong) (simp add: parseCell_toupper)
  have lo: "Board_of cells (map tolower str) = Board_of cells str"
    using a by (simp add: Board_of_def)
  have up: "Board_of cells (map toupper str) = Board_of cells str"
    using b by (simp add: Board_of_def)
  let ?f = "\<lambda>chr. if chr = CHR ''X'' \<or> chr = CHR ''x'' then BLACK
                 else if chr = CHR ''O'' \<or> chr = CHR ''o'' then WHITE else EMPTY"
  have d: "\<exists>b. Board_of cells str = Inr b
          \<and> Board_of cells (map tolower str) = Inr b
          \<and> Board_of cells (map toupper str) = Inr b
          \<and> length b = BOARD_CELLS
          \<and> (\<forall>k<BOARD_CELLS. b ! k = ?f (str ! k))"
    if h: "length cells = BOARD_CELLS \<and> length str = BOARD_CELLS
        \<and> set str \<subseteq> {CHR ''X'', CHR ''x'', CHR ''O'', CHR ''o'', CHR ''.''}"
  proof -
    have "parseCell chr = Inr (?f chr)" if "chr \<in> set str" for chr
    proof -
      from that h have "chr = CHR ''X'' \<or> chr = CHR ''x'' \<or> chr = CHR ''O'' \<or> chr = CHR ''o''
          \<or> chr = CHR ''.''"
        by auto
      then show ?thesis by (auto simp: parseCell_chars)
    qed
    then have m: "map parseCell str = map Inr (map ?f str)" by simp
    have "Board_loop cells 0 str =
        Inr (take 0 cells @ map ?f str @ drop (0 + length (map ?f str)) cells,
             0 + length (map ?f str))"
      using h by (intro Board_loop_ok [OF m]) simp_all
    then have r: "Board_of cells str = Inr (map ?f str)"
      using h by (simp add: Board_of_def)
    have "\<forall>k<BOARD_CELLS. map ?f str ! k = ?f (str ! k)" using h by simp
    with r lo up h show ?thesis by (intro exI [of _ "map ?f str"]) simp
  qed
  show ?thesis using lo up d parseCell_chars(1-4) by blast
qed

theorem parse_case_insensitive_witness:
  "Board_of (replicate 64 WHITE)
      ''...........................ox......xo...........................'' = Inr INITIAL_CELLS
   \<and> map toupper ''...........................ox......xo...........................''
       = INITIAL_BOARD"
proof -
  let ?s = "''...........................ox......xo...........................''"
  let ?c = "replicate 64 WHITE"
  have h: "length ?c = BOARD_CELLS \<and> length ?s = BOARD_CELLS
      \<and> set ?s \<subseteq> {CHR ''X'', CHR ''x'', CHR ''O'', CHR ''o'', CHR ''.''}"
    by (simp add: BOARD_CELLS_def BOARD_SIZE_def)
  have u: "map toupper ?s = INITIAL_BOARD" by code_simp
  from parse_case_insensitive [of ?c ?s] h
  obtain b where b: "Board_of ?c ?s = Inr b" "Board_of ?c (map toupper ?s) = Inr b"
    by blast
  have "Board_of ?c INITIAL_BOARD = Inr INITIAL_CELLS"
    by (rule Board_of_INITIAL) (simp add: BOARD_CELLS_def BOARD_SIZE_def)
  with b(2) have "b = INITIAL_CELLS" unfolding u by simp
  with b(1) u show ?thesis by simp
qed

subsection \<open>Placing a stone\<close>

text \<open>
  Claim C8. At a position that is out of bounds (\<open>x\<close> or \<open>y\<close> at least \<open>BOARD_SIZE\<close>)
  or whose cell is not \<open>EMPTY\<close>, \<^verbatim>\<open>put\<close> returns false and the board it leaves is the
  board it was given.
\<close>

theorem put_rejected_unchanged:
  "x \<ge> BOARD_SIZE \<or> y \<ge> BOARD_SIZE \<or> atB b x y \<noteq> EMPTY \<Longrightarrow> put x y b = (False, b)"
  by (auto simp: put_def isInBound_def)

theorem put_rejected_unchanged_witness:
  "atB INITIAL_CELLS 3 3 \<noteq> EMPTY \<and> put 3 3 INITIAL_CELLS = (False, INITIAL_CELLS)
   \<and> put 8 0 INITIAL_CELLS = (False, INITIAL_CELLS)"
proof -
  have h: "atB INITIAL_CELLS 3 3 \<noteq> EMPTY" by code_simp
  have g: "(8::nat) \<ge> BOARD_SIZE" by (simp add: BOARD_SIZE_def)
  show ?thesis
    using h put_rejected_unchanged [of 3 3 INITIAL_CELLS] put_rejected_unchanged [of 8 0 INITIAL_CELLS] g
    by simp
qed

text \<open>
  Claim C1 says that \<^verbatim>\<open>put\<close> at an empty, in-bounds cell where no direction captures
  returns false and leaves the board as it was. The code writes \<open>BLACK\<close> into the cell
  before it scans and never takes it back: on the opening board, \<^verbatim>\<open>put(0, 0)\<close> returns
  false and leaves a black stone at \<open>(0, 0)\<close>.
\<close>

theorem put_no_capture_keeps_stone:
  "atB INITIAL_CELLS 0 0 = EMPTY
   \<and> put 0 0 INITIAL_CELLS = (False, setB INITIAL_CELLS 0 0 BLACK)
   \<and> atB (snd (put 0 0 INITIAL_CELLS)) 0 0 = BLACK
   \<and> snd (put 0 0 INITIAL_CELLS) \<noteq> INITIAL_CELLS"
  by code_simp

theorem put_no_capture_keeps_stone_witness:
  "put 0 0 INITIAL_CELLS = (False, setB INITIAL_CELLS 0 0 BLACK)"
  using put_no_capture_keeps_stone by blast

text \<open>The walk of \<open>scan\<close> stays on the board, so \<^verbatim>\<open>at\<close> does not throw in it.\<close>

lemma isInBound_range:
  assumes "isInBound x y dx dy"
  shows "0 \<le> int x + dx" "int x + dx < 8" "0 \<le> int y + dy" "int y + dy < 8"
  using assms by (auto simp: isInBound_def BOARD_SIZE_def split: if_splits)

lemma isInBound_index:
  assumes "isInBound x y dx dy"
  shows "nat (int x + dx) + nat (int y + dy) * BOARD_SIZE < BOARD_CELLS"
  using isInBound_range [OF assms] by (simp add: BOARD_SIZE_def BOARD_CELLS_def)

lemma scan_white:
  "scan b x y dx dy n0 = (n, True) \<Longrightarrow> n0 \<le> j \<Longrightarrow> j < n \<Longrightarrow>
   isInBound x y (int j * dx) (int j * dy)
   \<and> atB b (nat (int x + int j * dx)) (nat (int y + int j * dy)) = WHITE"
proof (induction b x y dx dy n0 rule: scan.induct)
  case (1 b x y dx dy n0)
  let ?g = "(dx \<noteq> 0 \<or> dy \<noteq> 0) \<and> isInBound x y (int n0 * dx) (int n0 * dy)"
  let ?state = "atB b (nat (int x + int n0 * dx)) (nat (int y + int n0 * dy))"
  from "1.prems"(1) have g: ?g
    by (subst (asm) scan.simps) (auto split: if_splits)
  have nb: "?state \<noteq> BLACK"
  proof
    assume "?state = BLACK"
    with g "1.prems"(1) have "n = n0" by (subst (asm) scan.simps) (simp add: Let_def)
    with "1.prems" show False by simp
  qed
  have w: "?state = WHITE"
  proof (rule ccontr)
    assume "?state \<noteq> WHITE"
    with g nb "1.prems"(1) show False by (subst (asm) scan.simps) (simp add: Let_def)
  qed
  from g nb w "1.prems"(1) have rec: "scan b x y dx dy (n0 + 1) = (n, True)"
    by (subst (asm) scan.simps) (simp add: Let_def)
  show ?case
  proof (cases "j = n0")
    case True
    then show ?thesis using g w by simp
  next
    case False
    with "1.prems" have "n0 + 1 \<le> j" by simp
    then show ?thesis using "1.IH" [OF g refl nb _ rec _ "1.prems"(3)] w by simp
  qed
qed

lemma fold_update_length:
  "length (fold (\<lambda>j b'. b'[f j := c]) js b) = length b"
  by (induction js arbitrary: b) simp_all

lemma fold_update_nth:
  "i < length b \<Longrightarrow> fold (\<lambda>j b'. b'[f j := c]) js b ! i = (if i \<in> f ` set js then c else b ! i)"
  by (induction js arbitrary: b) (auto simp: nth_list_update)

lemma onlyFlips_refl: "onlyFlips b b"
  by (simp add: onlyFlips_def)

lemma onlyFlips_trans: "onlyFlips a b \<Longrightarrow> onlyFlips b c \<Longrightarrow> onlyFlips a c"
  unfolding onlyFlips_def by (metis Cell.distinct(1))

lemma flipRun_onlyFlips:
  assumes "scan b x y dx dy 1 = (n, True)"
  shows "onlyFlips b (flipRun b x y dx dy n)"
proof -
  let ?f = "\<lambda>j. nat (int x + int j * dx) + nat (int y + int j * dy) * BOARD_SIZE"
  have fr: "flipRun b x y dx dy n = fold (\<lambda>j b'. b'[?f j := BLACK]) [1..<n] b"
    by (simp add: flipRun_def setB_def)
  have "flipRun b x y dx dy n ! i = b ! i \<or> (b ! i = WHITE \<and> flipRun b x y dx dy n ! i = BLACK)"
    if i: "i < length b" for i
  proof (cases "i \<in> ?f ` set [1..<n]")
    case True
    then obtain j where j: "1 \<le> j" "j < n" "i = ?f j" by auto
    from scan_white [OF assms j(1) j(2)] have "b ! i = WHITE" by (simp add: atB_def j(3))
    moreover have "flipRun b x y dx dy n ! i = BLACK"
      unfolding fr using True i by (simp add: fold_update_nth del: set_upt)
    ultimately show ?thesis by simp
  next
    case False
    then have "flipRun b x y dx dy n ! i = b ! i"
      unfolding fr using i by (simp add: fold_update_nth del: set_upt)
    then show ?thesis by simp
  qed
  then show ?thesis by (simp add: onlyFlips_def fr fold_update_length)
qed

lemma putDir_onlyFlips: "onlyFlips (snd s) (snd (putDir x y dx dy s))"
proof (cases "scan (snd s) x y dx dy 1")
  case (Pair n blackFound)
  then show ?thesis
    using flipRun_onlyFlips [of "snd s" x y dx dy n]
    by (auto simp: putDir_def onlyFlips_refl)
qed

lemma fold_putDir_onlyFlips:
  "onlyFlips b0 (snd s) \<Longrightarrow> onlyFlips b0 (snd (fold (\<lambda>dy. putDir x y dx dy) dys s))"
proof (induction dys arbitrary: s)
  case Nil
  then show ?case by simp
next
  case (Cons dy dys)
  have "onlyFlips b0 (snd (putDir x y dx dy s))"
    using Cons.prems putDir_onlyFlips onlyFlips_trans by blast
  then show ?case using Cons.IH by simp
qed

lemma fold_fold_putDir_onlyFlips:
  "onlyFlips b0 (snd s) \<Longrightarrow>
   onlyFlips b0 (snd (fold (\<lambda>dx. fold (\<lambda>dy. putDir x y dx dy) dys) dxs s))"
proof (induction dxs arbitrary: s)
  case Nil
  then show ?case by simp
next
  case (Cons dx dxs)
  have "onlyFlips b0 (snd (fold (\<lambda>dy. putDir x y dx dy) dys s))"
    using Cons.prems by (rule fold_putDir_onlyFlips)
  then show ?case using Cons.IH by simp
qed

lemma put_onlyFlips:
  assumes "fst (put x y b)"
  shows "x < BOARD_SIZE" "y < BOARD_SIZE" "atB b x y = EMPTY"
    "onlyFlips (setB b x y BLACK) (snd (put x y b))"
proof -
  from assms have g: "isInBound x y 0 0" "atB b x y = EMPTY"
    by (auto simp: put_def split: if_splits)
  then show "x < BOARD_SIZE" "y < BOARD_SIZE" "atB b x y = EMPTY"
    by (auto simp: isInBound_def)
  from g have ng: "\<not> (\<not> isInBound x y 0 0 \<or> atB b x y \<noteq> EMPTY)" by simp
  show "onlyFlips (setB b x y BLACK) (snd (put x y b))"
    unfolding put_def if_not_P [OF ng]
    by (rule fold_fold_putDir_onlyFlips) (simp add: onlyFlips_refl)
qed

subsection \<open>Successor boards\<close>

lemma inner_fold:
  "fold (\<lambda>x boards. (case put x y b of (ok, tmp) \<Rightarrow> if ok then boards @ [flipPlayer tmp] else boards)) xs acc
   = acc @ map (\<lambda>(x, y). flipPlayer (snd (put x y b))) (filter (\<lambda>(x, y). fst (put x y b)) (map (\<lambda>x. (x, y)) xs))"
  by (induction xs arbitrary: acc) (auto simp: split_def)

lemma outer_fold:
  "fold (\<lambda>y. fold (\<lambda>x boards. (case put x y b of (ok, tmp) \<Rightarrow> if ok then boards @ [flipPlayer tmp] else boards)) xs) ys acc
   = acc @ map (\<lambda>(x, y). flipPlayer (snd (put x y b))) (filter (\<lambda>(x, y). fst (put x y b)) (concat (map (\<lambda>y. map (\<lambda>x. (x, y)) xs) ys)))"
  by (induction ys arbitrary: acc) (simp_all add: inner_fold)

lemma getNextStates_coords:
  "getNextStates b = map (\<lambda>(x, y). flipPlayer (snd (put x y b))) (filter (\<lambda>(x, y). fst (put x y b)) coords)"
  by (simp add: getNextStates_def coords_def outer_fold)

lemma coords_set: "(x, y) \<in> set coords \<longleftrightarrow> x < BOARD_SIZE \<and> y < BOARD_SIZE"
  by (force simp: coords_def)

lemma coords_distinct: "distinct coords"
  by code_simp

lemma put_results_differ:
  assumes len: "length b = BOARD_CELLS"
    and p: "fst (put x y b)" and p': "fst (put x' y' b)" and ne: "(x, y) \<noteq> (x', y')"
  shows "flipPlayer (snd (put x y b)) \<noteq> flipPlayer (snd (put x' y' b))"
proof -
  let ?k = "x + y * BOARD_SIZE" and ?k' = "x' + y' * BOARD_SIZE"
  note a = put_onlyFlips [OF p] and a' = put_onlyFlips [OF p']
  have k: "?k < length b" "?k' < length b"
    using a(1,2) a'(1,2) len by (auto simp: BOARD_SIZE_def BOARD_CELLS_def)
  have kk: "?k \<noteq> ?k'"
  proof
    assume eq: "?k = ?k'"
    have "x = ?k mod BOARD_SIZE" "y = ?k div BOARD_SIZE"
      "x' = ?k' mod BOARD_SIZE" "y' = ?k' div BOARD_SIZE"
      using a(1) a'(1) by simp_all
    with eq have "x = x'" "y = y'" by metis+
    with ne show False by simp
  qed
  have e: "b ! ?k = EMPTY" using a(3) by (simp add: atB_def)
  have "snd (put x y b) ! ?k = BLACK"
    using a(4) k by (auto simp: onlyFlips_def setB_def)
  moreover have "snd (put x' y' b) ! ?k = EMPTY"
    using a'(4) k kk e by (auto simp: onlyFlips_def setB_def)
  moreover have "length (snd (put x y b)) = length b" "length (snd (put x' y' b)) = length b"
    using a(4) a'(4) by (simp_all add: onlyFlips_def setB_def)
  ultimately have "flipPlayer (snd (put x y b)) ! ?k = WHITE"
    "flipPlayer (snd (put x' y' b)) ! ?k = EMPTY"
    using k by (simp_all add: flipPlayer_def)
  then show ?thesis by auto
qed

lemma getNextStates_distinct:
  assumes "length b = BOARD_CELLS"
  shows "distinct (getNextStates b)"
proof -
  have "inj_on (\<lambda>(x, y). flipPlayer (snd (put x y b)))
          (set (filter (\<lambda>(x, y). fst (put x y b)) coords))"
    using put_results_differ [OF assms] by (auto simp: inj_on_def)
  then show ?thesis
    by (simp add: getNextStates_coords distinct_map coords_distinct)
qed

text \<open>
  Claim C5. The boards that \<^verbatim>\<open>getNextStates\<close> returns are, in the order of the positions,
  the results of \<^verbatim>\<open>put\<close> on a copy of the board at the positions where \<^verbatim>\<open>put\<close> returns
  true, each passed once through \<^verbatim>\<open>flipPlayer\<close>; so every returned board comes from one
  placement that \<^verbatim>\<open>put\<close> accepts, followed by one colour flip. On a board of
  \<open>BOARD_CELLS\<close> cells no board is returned twice.
\<close>

theorem getNextStates_placements:
  "getNextStates b =
     map (\<lambda>(x, y). flipPlayer (snd (put x y b))) (filter (\<lambda>(x, y). fst (put x y b)) coords)
   \<and> (\<forall>r \<in> set (getNextStates b).
        \<exists>x<BOARD_SIZE. \<exists>y<BOARD_SIZE. fst (put x y b) \<and> r = flipPlayer (snd (put x y b)))
   \<and> (length b = BOARD_CELLS \<longrightarrow> distinct (getNextStates b))"
proof -
  have "\<exists>x<BOARD_SIZE. \<exists>y<BOARD_SIZE. fst (put x y b) \<and> r = flipPlayer (snd (put x y b))"
    if "r \<in> set (getNextStates b)" for r
  proof -
    from that obtain x y where "(x, y) \<in> set coords" "fst (put x y b)"
      "r = flipPlayer (snd (put x y b))"
      by (auto simp: getNextStates_coords)
    then show ?thesis using coords_set by blast
  qed
  then show ?thesis using getNextStates_coords getNextStates_distinct by blast
qed

theorem getNextStates_placements_witness:
  "length INITIAL_CELLS = BOARD_CELLS \<and> length (getNextStates INITIAL_CELLS) = 4
   \<and> distinct (getNextStates INITIAL_CELLS)"
proof -
  have h: "length INITIAL_CELLS = BOARD_CELLS" by code_simp
  have n: "length (getNextStates INITIAL_CELLS) = 4" by code_simp
  from getNextStates_placements [of INITIAL_CELLS] h
  have "distinct (getNextStates INITIAL_CELLS)" by blast
  with h n show ?thesis by blast
qed

text \<open>
  Claim C2 says that each of the four boards returned for the opening position has 3 black
  cells after the colour flip. The placement leaves 4 black cells and 1 white cell, so after
  the flip each board has 1 black cell.
\<close>

theorem opening_successors_black_after_flip:
  "map countBlack (getNextStates INITIAL_CELLS) = [1, 1, 1, 1]
   \<and> map countBlack (getNextStates INITIAL_CELLS) \<noteq> [3, 3, 3, 3]"
  by code_simp

text \<open>
  Claim C2, amended. \<open>INITIAL_CELLS\<close> is the board built from \<open>INITIAL_BOARD\<close>. On it
  \<^verbatim>\<open>getNextStates\<close> returns exactly 4 boards, for the placements at \<open>(3,2)\<close>, \<open>(2,3)\<close>,
  \<open>(5,4)\<close> and \<open>(4,5)\<close>; each of these placements leaves 4 black cells and 1 white
  cell, and each returned board, after the colour flip, has 1 black cell and 4 white cells.
\<close>

theorem opening_successors:
  "Board_of (replicate BOARD_CELLS EMPTY) INITIAL_BOARD = Inr INITIAL_CELLS
   \<and> length (getNextStates INITIAL_CELLS) = 4
   \<and> filter (\<lambda>(x, y). fst (put x y INITIAL_CELLS)) coords = [(3, 2), (2, 3), (5, 4), (4, 5)]
   \<and> getNextStates INITIAL_CELLS =
       map (\<lambda>(x, y). flipPlayer (snd (put x y INITIAL_CELLS))) [(3, 2), (2, 3), (5, 4), (4, 5)]
   \<and> map (\<lambda>(x, y). countBlack (snd (put x y INITIAL_CELLS))) [(3, 2), (2, 3), (5, 4), (4, 5)]
       = [4, 4, 4, 4]
   \<and> map (\<lambda>(x, y). length (filter (\<lambda>cell. cell = WHITE) (snd (put x y INITIAL_CELLS))))
         [(3, 2), (2, 3), (5, 4), (4, 5)]
       = [1, 1, 1, 1]
   \<and> map countBlack (getNextStates INITIAL_CELLS) = [1, 1, 1, 1]
   \<and> map (\<lambda>b. length (filter (\<lambda>cell. cell = WHITE) b)) (getNextStates INITIAL_CELLS)
       = [4, 4, 4, 4]
   \<and> map (\<lambda>b. length (filter (\<lambda>cell. cell = EMPTY) b)) (getNextStates INITIAL_CELLS)
       = [59, 59, 59, 59]"
  by code_simp

theorem opening_successors_witness:
  "length (getNextStates INITIAL_CELLS) = 4
   \<and> map countBlack (getNextStates INITIAL_CELLS) = [1, 1, 1, 1]
   \<and> map (\<lambda>b. length (filter (\<lambda>cell. cell = WHITE) b)) (getNextStates INITIAL_CELLS)
       = [4, 4, 4, 4]"
  using opening_successors by blast

section \<open>Properties of the search tree\<close>

subsection \<open>Expanding a node whose board is full\<close>

lemma put_filled:
  assumes "isFilled b" "length b = BOARD_CELLS" "(x, y) \<in> set coords"
  shows "put x y b = (False, b)"
proof -
  from assms(3) have "x < BOARD_SIZE" "y < BOARD_SIZE" by (simp_all add: coords_set)
  then have "x + y * BOARD_SIZE < length b"
    using assms(2) by (simp add: BOARD_SIZE_def BOARD_CELLS_def)
  then have "b ! (x + y * BOARD_SIZE) \<in> set b" by simp
  then have "atB b x y \<noteq> EMPTY"
    using assms(1) by (auto simp: isFilled_def atB_def list_all_iff)
  then show ?thesis by (simp add: put_def)
qed

lemma getNextStates_filled:
  assumes "isFilled b" "length b = BOARD_CELLS"
  shows "getNextStates b = []"
proof -
  have "filter (\<lambda>(x, y). fst (put x y b)) coords = []"
    using put_filled [OF assms] by (auto simp: filter_empty_conv)
  then show ?thesis by (simp add: getNextStates_coords)
qed

text \<open>
  Claim C4 says that \<^verbatim>\<open>expand\<close> on a node whose board is full never creates a child. In
  \<open>FULL_LEAF_TREE\<close> node 1, the successor of node 0, has a full board, one visit, no
  children, and a parent that is not a pass node: \<^verbatim>\<open>expand\<close> finds no successor, marks
  the node as a pass and gives it one child, node 2, with the colour-flipped board.
\<close>

theorem expand_filled_creates_child:
  "getNextStates (m_board (FULL_LEAF_TREE ! 0)) = [m_board (FULL_LEAF_TREE ! 1)]
   \<and> isFilled (m_board (FULL_LEAF_TREE ! 1))
   \<and> expand FULL_LEAF_TREE 1 =
       Inr (FULL_LEAF_TREE
             [1 := (FULL_LEAF_TREE ! 1)\<lparr>m_isPassMove := True, m_children := [2]\<rparr>]
            @ [Node_new (replicate 64 BLACK) P_BLACK (Some 1)])"
proof -
  have f: "isFilled (replicate 64 WHITE)" by (simp add: isFilled_def list_all_iff)
  have g: "getNextStates (replicate 64 WHITE) = []"
    by (rule getNextStates_filled [OF f]) (simp add: BOARD_CELLS_def BOARD_SIZE_def)
  have "getNextStates (replicate 62 BLACK @ [WHITE, EMPTY]) = [replicate 64 WHITE]"
    by code_simp
  then have s: "getNextStates (m_board (FULL_LEAF_TREE ! 0)) = [m_board (FULL_LEAF_TREE ! 1)]"
    by (simp add: FULL_LEAF_TREE_def)
  have "isFilled (m_board (FULL_LEAF_TREE ! 1))
   \<and> expand FULL_LEAF_TREE 1 =
       Inr (FULL_LEAF_TREE
             [1 := (FULL_LEAF_TREE ! 1)\<lparr>m_isPassMove := True, m_children := [2]\<rparr>]
            @ [Node_new (replicate 64 BLACK) P_BLACK (Some 1)])"
    using f g
    by (simp add: FULL_LEAF_TREE_def expand_def expandBody_def MIN_VISITS_TO_EXPAND_def
        nextPlayer_def flipped_def flipPlayer_def Node_new_def)
  with s show ?thesis by blast
qed

lemma expand_filled:
  assumes f: "isFilled (m_board (t ! i))" and l: "length (m_board (t ! i)) = BOARD_CELLS"
    and i: "i < length t"
  shows "isLeafNode t i"
    and "m_games (t ! i) = 0 \<or> m_children (t ! i) \<noteq> [] \<Longrightarrow>
         expand t i = Inr t \<or> expand t i = Inl AssertFailed"
    and "m_parent (t ! i) = Some p \<Longrightarrow> m_isPassMove (t ! p) \<Longrightarrow> p \<noteq> i \<Longrightarrow>
         expand t i = Inr t \<or> expand t i = Inr (t[i := (t ! i)\<lparr>m_isPassMove := True\<rparr>])"
    and "m_parent (t ! i) = Some p \<Longrightarrow> \<not> m_isPassMove (t ! p) \<Longrightarrow> p \<noteq> i \<Longrightarrow>
         m_games (t ! i) \<ge> 1 \<Longrightarrow> m_children (t ! i) = [] \<Longrightarrow>
         expand t i =
           Inr (t[i := (t ! i)\<lparr>m_isPassMove := True, m_children := [length t]\<rparr>]
                @ [Node_new (flipped (m_board (t ! i))) (nextPlayer (m_player (t ! i))) (Some i)])"
proof -
  note g = getNextStates_filled [OF f l]
  show "isLeafNode t i" using f by (simp add: isLeafNode_def)
  show "expand t i = Inr t \<or> expand t i = Inl AssertFailed"
    if "m_games (t ! i) = 0 \<or> m_children (t ! i) \<noteq> []"
    using that by (auto simp: expand_def expandBody_def MIN_VISITS_TO_EXPAND_def split: option.splits)
  show "expand t i = Inr t \<or> expand t i = Inr (t[i := (t ! i)\<lparr>m_isPassMove := True\<rparr>])"
    if "m_parent (t ! i) = Some p" "m_isPassMove (t ! p)" "p \<noteq> i"
    using that g i by (auto simp: expand_def expandBody_def Let_def)
  show "expand t i =
           Inr (t[i := (t ! i)\<lparr>m_isPassMove := True, m_children := [length t]\<rparr>]
                @ [Node_new (flipped (m_board (t ! i))) (nextPlayer (m_player (t ! i))) (Some i)])"
    if "m_parent (t ! i) = Some p" "\<not> m_isPassMove (t ! p)" "p \<noteq> i"
       "m_games (t ! i) \<ge> 1" "m_children (t ! i) = []"
    using that g i
    by (auto simp: expand_def expandBody_def Let_def MIN_VISITS_TO_EXPAND_def list_update_append)
qed

text \<open>
  Claim C4, amended. A node whose board is full is a leaf for \<^verbatim>\<open>isLeafNode\<close>, whatever its
  visits, pass flag and children. \<^verbatim>\<open>expand\<close> on it creates no child when the node has no
  visit or has children already (the store is unchanged, or the assertion on the parent
  fails), and none when its parent is a pass node (at most the pass flag is set). When the
  node has a visit, no children and a parent that is not a pass node, \<^verbatim>\<open>expand\<close> sets its
  pass flag and appends exactly one child, holding the colour-flipped board.
\<close>

theorem expand_on_filled_board:
  assumes "isFilled (m_board (t ! i))" and "length (m_board (t ! i)) = BOARD_CELLS"
    and "i < length t"
  shows "isLeafNode t i
     \<and> (m_games (t ! i) = 0 \<or> m_children (t ! i) \<noteq> [] \<longrightarrow>
          expand t i = Inr t \<or> expand t i = Inl AssertFailed)
     \<and> (\<forall>p. m_parent (t ! i) = Some p \<and> m_isPassMove (t ! p) \<and> p \<noteq> i \<longrightarrow>
          expand t i = Inr t \<or> expand t i = Inr (t[i := (t ! i)\<lparr>m_isPassMove := True\<rparr>]))
     \<and> (\<forall>p. m_parent (t ! i) = Some p \<and> \<not> m_isPassMove (t ! p) \<and> p \<noteq> i
              \<and> m_games (t ! i) \<ge> 1 \<and> m_children (t ! i) = [] \<longrightarrow>
          expand t i =
            Inr (t[i := (t ! i)\<lparr>m_isPassMove := True, m_children := [length t]\<rparr>]
                 @ [Node_new (flipped (m_board (t ! i))) (nextPlayer (m_player (t ! i)))
                      (Some i)]))"
  using expand_filled [OF assms] by blast

theorem expand_on_filled_board_witness:
  "isFilled (m_board (FULL_LEAF_TREE ! 1)) \<and> isLeafNode FULL_LEAF_TREE 1
   \<and> expand FULL_LEAF_TREE 1 =
       Inr (FULL_LEAF_TREE
              [1 := (FULL_LEAF_TREE ! 1)\<lparr>m_isPassMove := True, m_children := [length FULL_LEAF_TREE]\<rparr>]
            @ [Node_new (flipped (m_board (FULL_LEAF_TREE ! 1)))
                 (nextPlayer (m_player (FULL_LEAF_TREE ! 1))) (Some 1)])"
proof -
  have f: "isFilled (m_board (FULL_LEAF_TREE ! 1))"
    by (simp add: FULL_LEAF_TREE_def isFilled_def list_all_iff)
  have l: "length (m_board (FULL_LEAF_TREE ! 1)) = BOARD_CELLS"
    by (simp add: FULL_LEAF_TREE_def BOARD_CELLS_def BOARD_SIZE_def)
  have i: "1 < length FULL_LEAF_TREE" by (simp add: FULL_LEAF_TREE_def)
  have h: "m_parent (FULL_LEAF_TREE ! 1) = Some 0 \<and> \<not> m_isPassMove (FULL_LEAF_TREE ! 0)
      \<and> (0::nat) \<noteq> 1 \<and> m_games (FULL_LEAF_TREE ! 1) \<ge> 1
      \<and> m_children (FULL_LEAF_TREE ! 1) = []"
    by (simp add: FULL_LEAF_TREE_def)
  from expand_on_filled_board [OF f l i] h f show ?thesis by blast
qed

subsection \<open>Selecting a child\<close>

lemma score_less_irrefl: "\<not> score_less a a"
  by (cases a) simp_all

lemma score_less_trans: "score_less a b \<Longrightarrow> score_less b c \<Longrightarrow> score_less a c"
  by (cases a; cases b; cases c) simp_all

lemma score_less_between: "score_less a c \<Longrightarrow> score_less a b \<or> score_less b c"
  by (cases a; cases b; cases c) auto

lemma max_element_prefix:
  assumes irrefl: "\<And>a. \<not> lt a a"
    and trans: "\<And>a b c. lt a b \<Longrightarrow> lt b c \<Longrightarrow> lt a c"
    and between: "\<And>a b c. lt a c \<Longrightarrow> lt a b \<or> lt b c"
  shows "Suc m \<le> length vs \<Longrightarrow>
    (let r = fold (\<lambda>k largest. if lt (vs ! largest) (vs ! k) then k else largest) [1..<Suc m] 0
     in r < Suc m \<and> (\<forall>j<Suc m. \<not> lt (vs ! r) (vs ! j)) \<and> (\<forall>j<r. lt (vs ! j) (vs ! r)))"
proof (induction m)
  case 0
  then show ?case by (simp add: irrefl)
next
  case (Suc m)
  define r where "r = fold (\<lambda>k largest. if lt (vs ! largest) (vs ! k) then k else largest) [1..<Suc m] 0"
  from Suc.prems have "Suc m \<le> length vs" by simp
  from Suc.IH [OF this]
  have "r < Suc m \<and> (\<forall>j<Suc m. \<not> lt (vs ! r) (vs ! j)) \<and> (\<forall>j<r. lt (vs ! j) (vs ! r))"
    unfolding Let_def r_def [symmetric] .
  then have ih: "r < Suc m" "\<And>j. j < Suc m \<Longrightarrow> \<not> lt (vs ! r) (vs ! j)"
    "\<And>j. j < r \<Longrightarrow> lt (vs ! j) (vs ! r)"
    by blast+
  have "[1..<Suc (Suc m)] = [1..<Suc m] @ [Suc m]" by simp
  then have step: "fold (\<lambda>k largest. if lt (vs ! largest) (vs ! k) then k else largest) [1..<Suc (Suc m)] 0
      = (if lt (vs ! r) (vs ! Suc m) then Suc m else r)"
    unfolding r_def by (simp only: fold_append fold_simps o_apply)
  show ?case
  proof (cases "lt (vs ! r) (vs ! Suc m)")
    case True
    have a: "\<not> lt (vs ! Suc m) (vs ! j)" if "j < Suc (Suc m)" for j
    proof (cases "j = Suc m")
      case True
      then show ?thesis by (simp add: irrefl)
    next
      case False
      with that have "j < Suc m" by simp
      then have "\<not> lt (vs ! r) (vs ! j)" by (rule ih(2))
      then show ?thesis using True trans by blast
    qed
    have b: "lt (vs ! j) (vs ! Suc m)" if "j < Suc m" for j
      using between [OF True, of "vs ! j"] ih(2) [OF that] by blast
    show ?thesis unfolding Let_def step using True a b by simp
  next
    case False
    have a: "\<not> lt (vs ! r) (vs ! j)" if "j < Suc (Suc m)" for j
      using that False ih(2) [of j] by (cases "j = Suc m") auto
    show ?thesis unfolding Let_def step using False a ih(1) ih(3) by simp
  qed
qed

lemma max_element_first_max:
  assumes irrefl: "\<forall>a. \<not> lt a a"
    and trans: "\<forall>a b c. lt a b \<longrightarrow> lt b c \<longrightarrow> lt a c"
    and between: "\<forall>a b c. lt a c \<longrightarrow> lt a b \<or> lt b c"
    and ne: "vs \<noteq> []"
  shows "max_element lt vs < length vs"
    and "j < length vs \<Longrightarrow> \<not> lt (vs ! max_element lt vs) (vs ! j)"
    and "j < max_element lt vs \<Longrightarrow> lt (vs ! j) (vs ! max_element lt vs)"
proof -
  from ne obtain m where m: "length vs = Suc m" by (cases vs) auto
  have "let r = fold (\<lambda>k largest. if lt (vs ! largest) (vs ! k) then k else largest) [1..<Suc m] 0
     in r < Suc m \<and> (\<forall>j<Suc m. \<not> lt (vs ! r) (vs ! j)) \<and> (\<forall>j<r. lt (vs ! j) (vs ! r))"
  proof (rule max_element_prefix)
    show "\<not> lt a a" for a using irrefl by blast
    show "lt a b \<Longrightarrow> lt b c \<Longrightarrow> lt a c" for a b c using trans by blast
    show "lt a c \<Longrightarrow> lt a b \<or> lt b c" for a b c using between by blast
    show "Suc m \<le> length vs" using m by simp
  qed
  then have p: "max_element lt vs < Suc m \<and> (\<forall>j<Suc m. \<not> lt (vs ! max_element lt vs) (vs ! j))
      \<and> (\<forall>j<max_element lt vs. lt (vs ! j) (vs ! max_element lt vs))"
    unfolding Let_def max_element_def m .
  show "max_element lt vs < length vs" using p m by simp
  show "j < length vs \<Longrightarrow> \<not> lt (vs ! max_element lt vs) (vs ! j)" using p m by simp
  show "j < max_element lt vs \<Longrightarrow> lt (vs ! j) (vs ! max_element lt vs)" using p by simp
qed

lemma transform_ok:
  "(\<And>c. c \<in> set cs \<Longrightarrow> eval c = Inr (f c)) \<Longrightarrow> transform eval cs = Inr (map f cs)"
  by (induction cs) simp_all

lemma calcUCB_ok:
  assumes "m_parent (t ! c) = Some i" "m_games (t ! c) \<le> m_games (t ! i)"
  shows "calcUCB logf sqrtf t c =
     Inr (if m_games (t ! c) = 0 then PosInf else Finite (ucb32 logf sqrtf t i c))"
  using assms by (simp add: calcUCB_def ucb32_def)

text \<open>
  The value that \<open>SQRTF\<close> returns on \<open>TIE_TREE\<close> is the binary32 number nearest to the
  square root of its argument: the argument lies strictly between the squares of the two
  midpoints next to it (the numbers of \<open>[1/2, 1)\<close> are \<open>2 ^ -24\<close> apart).
\<close>

lemma SQRTF_correctly_rounded:
  "fdiv (LOGF (toFloat 17)) (toFloat 8) = 5941679 / 16777216
   \<and> SQRTF (5941679 / 16777216) = 9984229 / 16777216
   \<and> round32 (9984229 / 16777216) = 9984229 / 16777216
   \<and> (9984229 / 16777216 - 1 / 2 ^ 25) ^ 2 < (5941679 / 16777216 :: rat)
   \<and> (5941679 / 16777216 :: rat) < (9984229 / 16777216 + 1 / 2 ^ 25) ^ 2"
  by code_simp

text \<open>
  Claim C6, as stated, fails. On \<open>TIE_TREE\<close> both children of the root have been visited,
  and the second child has the larger score
  mean + sqrt 2 * sqrt (ln (visits of the parent) / visits of the child): the exploration
  terms are equal and its mean is larger. In binary32 both sums round to the same number,
  \<open>0x1.4d7398p+0\<close>, and \<^verbatim>\<open>std::max_element\<close> keeps the first of two equal scores:
  \<^verbatim>\<open>getChildWithMaxUCB\<close> returns the first child.
\<close>

theorem getChildWithMaxUCB_rounded_tie:
  "m_children (TIE_TREE ! 0) = [1, 2]
   \<and> map (\<lambda>c. m_games (TIE_TREE ! c)) (m_children (TIE_TREE ! 0)) = [8, 8]
   \<and> ucb TIE_TREE 0 1 < ucb TIE_TREE 0 2
   \<and> calcUCB LOGF SQRTF TIE_TREE 1 = Inr (Finite (2731635 / 2097152))
   \<and> calcUCB LOGF SQRTF TIE_TREE 2 = Inr (Finite (2731635 / 2097152))
   \<and> getChildWithMaxUCB LOGF SQRTF TIE_TREE 0 = Inr 1"
proof -
  have a: "m_children (TIE_TREE ! 0) = [1, 2]"
    "map (\<lambda>c. m_games (TIE_TREE ! c)) (m_children (TIE_TREE ! 0)) = [8, 8]"
    by (simp_all add: TIE_TREE_def)
  have "(of_rat (59 / 128) :: real) < of_rat (15466497 / 33554432)"
    by (simp add: of_rat_less)
  then have b: "ucb TIE_TREE 0 1 < ucb TIE_TREE 0 2"
    by (simp add: ucb_def TIE_TREE_def)
  have c: "calcUCB LOGF SQRTF TIE_TREE 1 = Inr (Finite (2731635 / 2097152))"
    "calcUCB LOGF SQRTF TIE_TREE 2 = Inr (Finite (2731635 / 2097152))"
    by code_simp+
  have d: "getChildWithMaxUCB LOGF SQRTF TIE_TREE 0 = Inr 1"
    by code_simp
  from a b c d show ?thesis by simp
qed

text \<open>
  Claim C6, amended. Let node \<open>i\<close> have children, each with \<open>i\<close> as its parent and at most
  as many visits as \<open>i\<close> (the two assertions of \<^verbatim>\<open>calcUCB\<close>). Then, whatever
  \<^verbatim>\<open>logf\<close> and \<^verbatim>\<open>sqrtf\<close> return, \<^verbatim>\<open>getChildWithMaxUCB\<close> returns a child, the one at
  some position \<open>k\<close>. If some child has no visit, the returned child has none, and every
  child before it has been visited. If every child has been visited, the returned child has
  the largest score as \<^verbatim>\<open>calcUCB\<close> computes it in binary32 arithmetic (\<open>ucb32\<close>), and
  every child before it has a strictly smaller computed score.
\<close>

theorem getChildWithMaxUCB_selects:
  assumes ne: "m_children (t ! i) \<noteq> []"
    and ch: "\<forall>c \<in> set (m_children (t ! i)). m_parent (t ! c) = Some i \<and> m_games (t ! c) \<le> m_games (t ! i)"
  shows "\<exists>k<length (m_children (t ! i)).
     getChildWithMaxUCB logf sqrtf t i = Inr (m_children (t ! i) ! k)
     \<and> ((\<exists>c \<in> set (m_children (t ! i)). m_games (t ! c) = 0) \<longrightarrow>
          m_games (t ! (m_children (t ! i) ! k)) = 0
          \<and> (\<forall>j<k. m_games (t ! (m_children (t ! i) ! j)) \<noteq> 0))
     \<and> ((\<forall>c \<in> set (m_children (t ! i)). m_games (t ! c) \<noteq> 0) \<longrightarrow>
          (\<forall>j<length (m_children (t ! i)).
             ucb32 logf sqrtf t i (m_children (t ! i) ! j)
             \<le> ucb32 logf sqrtf t i (m_children (t ! i) ! k))
          \<and> (\<forall>j<k. ucb32 logf sqrtf t i (m_children (t ! i) ! j)
                   < ucb32 logf sqrtf t i (m_children (t ! i) ! k)))"
proof -
  let ?cs = "m_children (t ! i)"
  let ?u = "ucb32 logf sqrtf t i"
  let ?sc = "\<lambda>c. if m_games (t ! c) = 0 then PosInf else Finite (?u c)"
  let ?vs = "map ?sc ?cs"
  let ?k = "max_element score_less ?vs"
  have tr: "transform (calcUCB logf sqrtf t) ?cs = Inr ?vs"
    using ch by (intro transform_ok calcUCB_ok) auto
  have r: "getChildWithMaxUCB logf sqrtf t i = Inr (?cs ! ?k)"
    using ne tr by (simp add: getChildWithMaxUCB_def getChildWithMaxValue_def)
  have vne: "?vs \<noteq> []" using ne by simp
  have ord: "\<forall>a. \<not> score_less a a"
    "\<forall>a b c. score_less a b \<longrightarrow> score_less b c \<longrightarrow> score_less a c"
    "\<forall>a b c. score_less a c \<longrightarrow> score_less a b \<or> score_less b c"
    using score_less_irrefl score_less_trans score_less_between by blast+
  note mx = max_element_first_max [OF ord vne]
  have k: "?k < length ?cs" using mx(1) by simp
  have top: "\<not> score_less (?sc (?cs ! ?k)) (?sc (?cs ! j))" if "j < length ?cs" for j
  proof -
    from that have "j < length ?vs" by simp
    from mx(2) [OF this] show ?thesis using that k by simp
  qed
  have below: "score_less (?sc (?cs ! j)) (?sc (?cs ! ?k))" if "j < ?k" for j
  proof -
    from mx(3) [OF that] show ?thesis using that k by simp
  qed
  have z: "m_games (t ! (?cs ! ?k)) = 0 \<and> (\<forall>j<?k. m_games (t ! (?cs ! j)) \<noteq> 0)"
    if "\<exists>c \<in> set ?cs. m_games (t ! c) = 0"
  proof -
    from that obtain j where j: "j < length ?cs" "m_games (t ! (?cs ! j)) = 0"
      by (auto simp: in_set_conv_nth)
    from top [OF j(1)] j(2) have z0: "m_games (t ! (?cs ! ?k)) = 0"
      by (auto split: if_splits)
    have "m_games (t ! (?cs ! j')) \<noteq> 0" if "j' < ?k" for j'
      using below [OF that] z0 by (auto split: if_splits)
    with z0 show ?thesis by blast
  qed
  have nz: "(\<forall>j<length ?cs. ?u (?cs ! j) \<le> ?u (?cs ! ?k))
      \<and> (\<forall>j<?k. ?u (?cs ! j) < ?u (?cs ! ?k))"
    if a: "\<forall>c \<in> set ?cs. m_games (t ! c) \<noteq> 0"
  proof -
    have g: "m_games (t ! (?cs ! j)) \<noteq> 0" if "j < length ?cs" for j
      using a that by simp
    have "?u (?cs ! j) \<le> ?u (?cs ! ?k)" if "j < length ?cs" for j
      using top [OF that] g [OF that] g [OF k] by simp
    moreover have "?u (?cs ! j) < ?u (?cs ! ?k)" if "j < ?k" for j
    proof -
      from that k have "j < length ?cs" by simp
      then show ?thesis using below [OF that] g [of j] g [OF k] by simp
    qed
    ultimately show ?thesis by blast
  qed
  show ?thesis using k r z nz by blast
qed

theorem getChildWithMaxUCB_selects_witness:
  "getChildWithMaxUCB LOGF SQRTF SMALL_TREE 0 = Inr 2
   \<and> getChildWithMaxUCB LOGF SQRTF TIE_TREE 0 = Inr 1"
proof -
  have a: "m_children (SMALL_TREE ! 0) \<noteq> []"
    "\<forall>c \<in> set (m_children (SMALL_TREE ! 0)).
       m_parent (SMALL_TREE ! c) = Some 0 \<and> m_games (SMALL_TREE ! c) \<le> m_games (SMALL_TREE ! 0)"
    "\<exists>c \<in> set (m_children (SMALL_TREE ! 0)). m_games (SMALL_TREE ! c) = 0"
    by (simp_all add: SMALL_TREE_def)
  from getChildWithMaxUCB_selects [OF a(1,2), of LOGF SQRTF] a(3)
  obtain k where k: "k < length (m_children (SMALL_TREE ! 0))"
    "getChildWithMaxUCB LOGF SQRTF SMALL_TREE 0 = Inr (m_children (SMALL_TREE ! 0) ! k)"
    "m_games (SMALL_TREE ! (m_children (SMALL_TREE ! 0) ! k)) = 0"
    by blast
  from k(1) have "k = 0 \<or> k = 1" by (auto simp: SMALL_TREE_def)
  with k(3) have "k = 1" by (auto simp: SMALL_TREE_def)
  with k(2) have r1: "getChildWithMaxUCB LOGF SQRTF SMALL_TREE 0 = Inr 2"
    by (simp add: SMALL_TREE_def)
  have b: "m_children (TIE_TREE ! 0) \<noteq> []"
    "\<forall>c \<in> set (m_children (TIE_TREE ! 0)).
       m_parent (TIE_TREE ! c) = Some 0 \<and> m_games (TIE_TREE ! c) \<le> m_games (TIE_TREE ! 0)"
    "\<forall>c \<in> set (m_children (TIE_TREE ! 0)). m_games (TIE_TREE ! c) \<noteq> 0"
    by (simp_all add: TIE_TREE_def)
  from getChildWithMaxUCB_selects [OF b(1,2), of LOGF SQRTF] b(3)
  obtain k' where k': "k' < length (m_children (TIE_TREE ! 0))"
    "getChildWithMaxUCB LOGF SQRTF TIE_TREE 0 = Inr (m_children (TIE_TREE ! 0) ! k')"
    "\<forall>j<k'. ucb32 LOGF SQRTF TIE_TREE 0 (m_children (TIE_TREE ! 0) ! j)
            < ucb32 LOGF SQRTF TIE_TREE 0 (m_children (TIE_TREE ! 0) ! k')"
    by blast
  have ch: "m_children (TIE_TREE ! 0) = [1, 2]" by (simp add: TIE_TREE_def)
  from k'(1) have c: "k' = 0 \<or> k' = 1" unfolding ch by auto
  have eq: "ucb32 LOGF SQRTF TIE_TREE 0 1 = ucb32 LOGF SQRTF TIE_TREE 0 2"
    by code_simp
  have "k' \<noteq> 1"
  proof
    assume k1: "k' = 1"
    with k'(3) have "ucb32 LOGF SQRTF TIE_TREE 0 ([1, 2] ! 0) < ucb32 LOGF SQRTF TIE_TREE 0 ([1, 2] ! 1)"
      unfolding ch by blast
    with eq show False by simp
  qed
  with c have "k' = 0" by simp
  with k'(2) have r2: "getChildWithMaxUCB LOGF SQRTF TIE_TREE 0 = Inr 1" unfolding ch by simp
  from r1 r2 show ?thesis by simp
qed

subsection \<open>Propagating a result\<close>

lemma bump_fields [simp]:
  "m_board (bump n w) = m_board n" "m_player (bump n w) = m_player n"
  "m_isPassMove (bump n w) = m_isPassMove n" "m_parent (bump n w) = m_parent n"
  "m_children (bump n w) = m_children n" "m_games (bump n w) = m_games n + 1"
  "m_mean (bump n w) =
     fdiv (fadd (fmul (toFloat (m_games n)) (m_mean n)) w) (toFloat (m_games n + 1))"
  by (simp_all add: bump_def)

lemma received_le: "received t i occ j = Some w \<Longrightarrow> j \<le> i"
proof (induction t i occ j rule: received.induct)
  case (1 t i occ j)
  show ?case
  proof (cases "j = i")
    case True
    then show ?thesis by simp
  next
    case False
    with "1.prems" obtain p where p: "m_parent (t ! i) = Some p" "p < i"
      "received t p (fsub 1 occ) j = Some w"
      by (subst (asm) received.simps) (auto split: option.splits if_splits)
    from "1.IH" [OF False p(1) p(2) p(3)] p(2) show ?thesis by simp
  qed
qed

lemma received_self: "received t i occ i = Some occ"
  by (subst received.simps) simp

lemma received_parent_cong:
  "(\<And>k. k \<le> i \<Longrightarrow> m_parent (t' ! k) = m_parent (t ! k)) \<Longrightarrow>
   received t' i occ j = received t i occ j"
proof (induction i arbitrary: occ rule: less_induct)
  case (less i)
  have pi: "m_parent (t' ! i) = m_parent (t ! i)" using less.prems by simp
  show ?case
  proof (cases "j = i")
    case True
    then show ?thesis by (simp add: received_self)
  next
    case False
    show ?thesis
    proof (cases "m_parent (t ! i)")
      case None
      then show ?thesis
        using False pi by (subst received.simps, subst (2) received.simps) simp
    next
      case (Some p)
      show ?thesis
      proof (cases "p < i")
        case True
        have "received t' p (fsub 1 occ) j = received t p (fsub 1 occ) j"
          using True less.prems by (intro less.IH) simp_all
        then show ?thesis
          using False Some True pi by (subst received.simps, subst (2) received.simps) simp
      next
        case False': False
        show ?thesis
          using False Some False' pi by (subst received.simps, subst (2) received.simps) simp
      qed
    qed
  qed
qed

lemma received_range:
  "received t i occ j = Some w \<Longrightarrow> 0 \<le> occ \<Longrightarrow> occ \<le> 1 \<Longrightarrow> 0 \<le> w \<and> w \<le> 1"
proof (induction t i occ j rule: received.induct)
  case (1 t i occ j)
  show ?case
  proof (cases "j = i")
    case True
    with "1.prems" show ?thesis by (simp add: received_self)
  next
    case False
    with "1.prems"(1) obtain p where p: "m_parent (t ! i) = Some p" "p < i"
      "received t p (fsub 1 occ) j = Some w"
      by (subst (asm) received.simps) (auto split: option.splits if_splits)
    from "1.IH" [OF False p(1) p(2) p(3)] fsub_unit [OF "1.prems"(2,3)] show ?thesis by simp
  qed
qed

lemma received_parent:
  "received t i occ j = Some w \<Longrightarrow> m_parent (t ! j) = Some q \<Longrightarrow> q < j \<Longrightarrow>
   received t i occ q = Some (fsub 1 w)"
proof (induction t i occ j rule: received.induct)
  case (1 t i occ j)
  show ?case
  proof (cases "j = i")
    case True
    with "1.prems" have w: "w = occ" by (simp add: received_self)
    have "received t i occ q = received t q (fsub 1 occ) q"
      using True "1.prems"(2,3) by (subst received.simps) simp
    then show ?thesis by (simp add: received_self w)
  next
    case False
    with "1.prems"(1) obtain p where p: "m_parent (t ! i) = Some p" "p < i"
      "received t p (fsub 1 occ) j = Some w"
      by (subst (asm) received.simps) (auto split: option.splits if_splits)
    from received_le [OF p(3)] "1.prems"(3) p(2) have "q \<noteq> i" by simp
    then have "received t i occ q = received t p (fsub 1 occ) q"
      using p(1,2) by (subst received.simps) simp
    with "1.IH" [OF False p(1) p(2) p(3) "1.prems"(2,3)] show ?thesis by simp
  qed
qed

lemma wf_tree_parent_cong:
  "wf_tree t \<Longrightarrow> length t' = length t \<Longrightarrow> (\<And>k. k < length t \<Longrightarrow> m_parent (t' ! k) = m_parent (t ! k))
   \<Longrightarrow> wf_tree t'"
  by (simp add: wf_tree_def)

lemma propagateResult_effect:
  "wf_tree t \<Longrightarrow> i < length t \<Longrightarrow>
   \<exists>t'. propagateResult t i occ = Some t' \<and> length t' = length t
     \<and> (\<forall>j<length t. t' ! j = (case received t i occ j of None \<Rightarrow> t ! j | Some w \<Rightarrow> bump (t ! j) w))"
proof (induction i arbitrary: t occ rule: less_induct)
  case (less i)
  let ?t1 = "t[i := bump (t ! i) occ]"
  have par: "m_parent (?t1 ! k) = m_parent (t ! k)" for k
    using less.prems(2) by (cases "k = i") simp_all
  show ?case
  proof (cases "m_parent (t ! i)")
    case None
    then have r: "propagateResult t i occ = Some ?t1"
      using less.prems(2) by (subst propagateResult.simps) simp
    have "?t1 ! j = (case received t i occ j of None \<Rightarrow> t ! j | Some w \<Rightarrow> bump (t ! j) w)"
      if "j < length t" for j
      using that None by (subst received.simps) (simp add: nth_list_update)
    with r show ?thesis by simp
  next
    case (Some p)
    then have pi: "p < i" using less.prems by (simp add: wf_tree_def)
    have r: "propagateResult t i occ = propagateResult ?t1 p (fsub 1 occ)"
      using less.prems(2) Some by (subst propagateResult.simps) simp
    have wf1: "wf_tree ?t1"
      by (rule wf_tree_parent_cong [OF less.prems(1)]) (simp_all add: par)
    from less.IH [OF pi wf1, of "fsub 1 occ"] pi less.prems(2)
    obtain t' where t': "propagateResult ?t1 p (fsub 1 occ) = Some t'" "length t' = length t"
      "\<forall>j<length t. t' ! j =
         (case received ?t1 p (fsub 1 occ) j of None \<Rightarrow> ?t1 ! j | Some w \<Rightarrow> bump (?t1 ! j) w)"
      by auto
    have rc: "received ?t1 p (fsub 1 occ) j = received t p (fsub 1 occ) j" for j
      by (rule received_parent_cong) (rule par)
    have "t' ! j = (case received t i occ j of None \<Rightarrow> t ! j | Some w \<Rightarrow> bump (t ! j) w)"
      if j: "j < length t" for j
    proof (cases "j = i")
      case True
      have "received t p (fsub 1 occ) i = None"
      proof (cases "received t p (fsub 1 occ) i")
        case (Some w)
        from received_le [OF this] pi show ?thesis by simp
      qed simp
      then show ?thesis using t'(3) j True by (simp add: rc received_self)
    next
      case False
      then have "received t i occ j = received t p (fsub 1 occ) j"
        using Some pi by (subst received.simps) simp
      then show ?thesis using t'(3) j False by (simp add: rc split: option.splits)
    qed
    with t'(1,2) r show ?thesis by simp
  qed
qed

lemma propagateResult_parents:
  assumes "wf_tree t" "i < length t" "propagateResult t i occ = Some t'"
  shows "length t' = length t" "wf_tree t'"
    "\<And>k. k < length t \<Longrightarrow> m_parent (t' ! k) = m_parent (t ! k)"
proof -
  from propagateResult_effect [OF assms(1,2), of occ] assms(3)
  have e: "length t' = length t"
    "\<forall>j<length t. t' ! j = (case received t i occ j of None \<Rightarrow> t ! j | Some w \<Rightarrow> bump (t ! j) w)"
    by auto
  show "length t' = length t" by (rule e(1))
  show p: "m_parent (t' ! k) = m_parent (t ! k)" if "k < length t" for k
    using e(2) that by (simp split: option.splits)
  show "wf_tree t'" by (rule wf_tree_parent_cong [OF assms(1) e(1)]) (simp add: p)
qed

lemma receivedAll_parent_cong:
  "length t' = length t \<Longrightarrow> (\<And>k. k < length t \<Longrightarrow> m_parent (t' ! k) = m_parent (t ! k)) \<Longrightarrow>
   \<forall>(i, w) \<in> set calls. i < length t \<Longrightarrow> receivedAll t' calls j = receivedAll t calls j"
proof (induction calls)
  case Nil
  then show ?case by simp
next
  case (Cons c calls)
  obtain i w where c: "c = (i, w)" by (cases c)
  with Cons.prems have i: "i < length t" by simp
  have "received t' i w j = received t i w j"
    using i Cons.prems(2) by (intro received_parent_cong) simp
  moreover have "receivedAll t' calls j = receivedAll t calls j"
    using Cons.prems by (intro Cons.IH) simp_all
  ultimately show ?case by (simp add: c)
qed

lemma propagateAll_effect:
  "wf_tree t \<Longrightarrow> \<forall>(i, w) \<in> set calls. i < length t \<Longrightarrow>
   \<exists>t'. propagateAll t calls = Some t' \<and> length t' = length t
     \<and> (\<forall>j<length t. t' ! j = foldl bump (t ! j) (receivedAll t calls j))"
proof (induction calls arbitrary: t)
  case Nil
  then show ?case by simp
next
  case (Cons c calls)
  obtain i w where c: "c = (i, w)" by (cases c)
  with Cons.prems have i: "i < length t" by simp
  from propagateResult_effect [OF Cons.prems(1) i, of w]
  obtain t1 where t1: "propagateResult t i w = Some t1" "length t1 = length t"
    "\<forall>j<length t. t1 ! j = (case received t i w j of None \<Rightarrow> t ! j | Some v \<Rightarrow> bump (t ! j) v)"
    by auto
  note p = propagateResult_parents [OF Cons.prems(1) i t1(1)]
  have calls1: "\<forall>(i, w) \<in> set calls. i < length t1" using Cons.prems(2) t1(2) by simp
  from Cons.IH [OF p(2) calls1]
  obtain t' where t': "propagateAll t1 calls = Some t'" "length t' = length t1"
    "\<forall>j<length t1. t' ! j = foldl bump (t1 ! j) (receivedAll t1 calls j)"
    by auto
  have rc: "receivedAll t1 calls j = receivedAll t calls j" for j
    using Cons.prems(2) by (intro receivedAll_parent_cong p) simp_all
  have "t' ! j = foldl bump (t ! j) (receivedAll t (c # calls) j)" if j: "j < length t" for j
    using t'(3) t1(2,3) j by (simp add: c rc split: option.splits)
  with t'(1,2) t1(1,2) show ?case by (simp add: c)
qed

lemma foldl_bump_games: "m_games (foldl bump n vs) = m_games n + length vs"
  by (induction vs arbitrary: n) simp_all

lemma foldl_bump_range:
  "\<forall>w \<in> set vs. 0 \<le> w \<and> w \<le> 1 \<Longrightarrow> 0 \<le> m_mean n \<Longrightarrow> m_mean n \<le> 1 \<Longrightarrow>
   0 \<le> m_mean (foldl bump n vs) \<and> m_mean (foldl bump n vs) \<le> 1"
proof (induction vs arbitrary: n)
  case Nil
  then show ?case by simp
next
  case (Cons w vs)
  from Cons.prems have w: "0 \<le> w" "w \<le> 1" by simp_all
  from mean_update_unit [OF Cons.prems(2,3) w]
  have m: "0 \<le> m_mean (bump n w)" "m_mean (bump n w) \<le> 1" by simp_all
  have "0 \<le> m_mean (foldl bump (bump n w) vs) \<and> m_mean (foldl bump (bump n w) vs) \<le> 1"
    using Cons.prems by (intro Cons.IH m) simp_all
  then show ?case by simp
qed

lemma receivedAll_range:
  "\<forall>(i, w) \<in> set calls. 0 \<le> w \<and> w \<le> 1 \<Longrightarrow> v \<in> set (receivedAll t calls j) \<Longrightarrow> 0 \<le> v \<and> v \<le> 1"
proof (induction calls)
  case Nil
  then show ?case by simp
next
  case (Cons c calls)
  obtain i w where c: "c = (i, w)" by (cases c)
  from Cons.prems(2) consider "received t i w j = Some v" | "v \<in> set (receivedAll t calls j)"
    by (auto simp: c split: option.splits)
  then show ?case
  proof cases
    case 1
    from received_range [OF this] Cons.prems(1) show ?thesis by (simp add: c)
  next
    case 2
    with Cons show ?thesis by simp
  qed
qed

lemma received_pathToRoot: "received t i occ j \<noteq> None \<longleftrightarrow> j \<in> set (pathToRoot t i)"
proof (induction i arbitrary: occ rule: less_induct)
  case (less i)
  show ?case
  proof (cases "j = i")
    case True
    then show ?thesis by (subst pathToRoot.simps) (simp add: received_self)
  next
    case False
    show ?thesis
    proof (cases "m_parent (t ! i)")
      case None
      then show ?thesis
        using False by (subst received.simps, subst pathToRoot.simps) simp
    next
      case (Some p)
      show ?thesis
      proof (cases "p < i")
        case True
        from less.IH [OF True, of "fsub 1 occ"] show ?thesis
          using False Some True by (subst received.simps, subst pathToRoot.simps) simp
      next
        case False': False
        then show ?thesis
          using False Some by (subst received.simps, subst pathToRoot.simps) simp
      qed
    qed
  qed
qed

lemma propagateResult_frame:
  assumes "wf_tree t" "i < length t" "propagateResult t i occ = Some t'" "j < length t"
  shows "m_board (t' ! j) = m_board (t ! j)" "m_player (t' ! j) = m_player (t ! j)"
    "m_isPassMove (t' ! j) = m_isPassMove (t ! j)" "m_parent (t' ! j) = m_parent (t ! j)"
    "m_children (t' ! j) = m_children (t ! j)"
    "j \<notin> set (pathToRoot t i) \<Longrightarrow> t' ! j = t ! j"
    "j \<in> set (pathToRoot t i) \<Longrightarrow> m_games (t' ! j) = m_games (t ! j) + 1"
proof -
  from propagateResult_effect [OF assms(1,2), of occ] assms(3,4)
  have e: "t' ! j = (case received t i occ j of None \<Rightarrow> t ! j | Some w \<Rightarrow> bump (t ! j) w)"
    by auto
  show "m_board (t' ! j) = m_board (t ! j)" "m_player (t' ! j) = m_player (t ! j)"
    "m_isPassMove (t' ! j) = m_isPassMove (t ! j)" "m_parent (t' ! j) = m_parent (t ! j)"
    "m_children (t' ! j) = m_children (t ! j)"
    using e by (simp_all split: option.splits)
  show "t' ! j = t ! j" if "j \<notin> set (pathToRoot t i)"
    using e that received_pathToRoot [of t i occ j] by (simp split: option.splits)
  show "m_games (t' ! j) = m_games (t ! j) + 1" if "j \<in> set (pathToRoot t i)"
    using e that received_pathToRoot [of t i occ j] by (auto split: option.splits)
qed

lemma propagateResult_treeInv:
  assumes wf: "wf_tree t" and i: "i < length t" and inv: "treeInv t"
    and r: "propagateResult t i occ = Some t'"
  shows "treeInv t'"
proof -
  from propagateResult_effect [OF wf i, of occ] r
  have l: "length t' = length t"
    and e: "\<And>j. j < length t \<Longrightarrow>
       t' ! j = (case received t i occ j of None \<Rightarrow> t ! j | Some w \<Rightarrow> bump (t ! j) w)"
    by auto
  have a: "m_children (t' ! j) = []" if j: "j < length t" and z: "m_games (t' ! j) = 0" for j
  proof -
    from e [OF j] z have "received t i occ j = None" by (auto split: option.splits)
    with e [OF j] z have "t' ! j = t ! j" by simp
    with inv j z show ?thesis by (simp add: treeInv_def)
  qed
  have b: "m_games (t' ! j) \<le> m_games (t' ! q)"
    if j: "j < length t" and q: "m_parent (t' ! j) = Some q" for j q
  proof -
    from e [OF j] q have pq: "m_parent (t ! j) = Some q" by (auto split: option.splits)
    with wf j have qj: "q < j" by (simp add: wf_tree_def)
    with j have ql: "q < length t" by simp
    from inv j pq have le: "m_games (t ! j) \<le> m_games (t ! q)" by (simp add: treeInv_def)
    show ?thesis
    proof (cases "received t i occ j")
      case None
      with e [OF j] have "m_games (t' ! j) = m_games (t ! j)" by simp
      moreover have "m_games (t ! q) \<le> m_games (t' ! q)"
        using e [OF ql] by (simp split: option.splits)
      ultimately show ?thesis using le by simp
    next
      case (Some w)
      from received_parent [OF Some pq qj] e [OF ql] e [OF j] Some le
      show ?thesis by simp
    qed
  qed
  show ?thesis using a b l by (simp add: treeInv_def)
qed

lemma propagateAll_root:
  "m_parent n = None \<Longrightarrow> propagateAll [n] (map (Pair 0) ws) = Some [foldl bump n ws]"
proof (induction ws arbitrary: n)
  case Nil
  then show ?case by simp
next
  case (Cons w ws)
  from Cons.prems have "propagateResult [n] 0 w = Some [bump n w]"
    by (subst propagateResult.simps) simp
  moreover have "propagateAll [bump n w] (map (Pair 0) ws) = Some [foldl bump (bump n w) ws]"
    using Cons.prems by (intro Cons.IH) simp
  ultimately show ?case by simp
qed

text \<open>
  Claim C3, as stated, fails: \<^verbatim>\<open>mean_\<close> is a \<^verbatim>\<open>float\<close>, and every operation of the
  update is rounded. A new root that receives 1/2, 1/2 and 1/4 has the mean 1/2 after two
  calls; the third call sets it to \<open>0x1.aaaaaap-2 = 13981013 / 33554432\<close>, which is neither
  (2 * 1/2 + 1/4) / 3 nor the arithmetic mean of the three values, 5/12.
\<close>

theorem propagateResult_mean_rounded:
  "map_option (\<lambda>t. (m_games (t ! 0), m_mean (t ! 0)))
      (propagateAll ROOT_ONLY [(0, 1 / 2), (0, 1 / 2)]) = Some (2, 1 / 2)
   \<and> map_option (\<lambda>t. (m_games (t ! 0), m_mean (t ! 0)))
      (propagateAll ROOT_ONLY [(0, 1 / 2), (0, 1 / 2), (0, 1 / 4)]) = Some (3, 13981013 / 33554432)
   \<and> receivedAll ROOT_ONLY [(0, 1 / 2), (0, 1 / 2), (0, 1 / 4)] 0 = [1 / 2, 1 / 2, 1 / 4]
   \<and> (2 * (1 / 2) + 1 / 4) / (2 + 1) = (5 / 12 :: rat)
   \<and> sum_list [1 / 2, 1 / 2, 1 / 4] / 3 = (5 / 12 :: rat)
   \<and> (13981013 / 33554432 :: rat) \<noteq> 5 / 12"
proof -
  let ?n = "Node_new INITIAL_CELLS P_BLACK None"
  have p: "m_parent ?n = None" by (simp add: Node_new_def)
  have e: "map (Pair (0::nat)) [1 / 2, 1 / 2 :: float32] = [(0, 1 / 2), (0, 1 / 2)]"
    "map (Pair (0::nat)) [1 / 2, 1 / 2, 1 / 4 :: float32] = [(0, 1 / 2), (0, 1 / 2), (0, 1 / 4)]"
    by simp_all
  have a: "propagateAll ROOT_ONLY [(0, 1 / 2), (0, 1 / 2)] = Some [foldl bump ?n [1 / 2, 1 / 2]]"
    using propagateAll_root [OF p, of "[1 / 2, 1 / 2]"] unfolding e ROOT_ONLY_def .
  have b: "propagateAll ROOT_ONLY [(0, 1 / 2), (0, 1 / 2), (0, 1 / 4)]
      = Some [foldl bump ?n [1 / 2, 1 / 2, 1 / 4]]"
    using propagateAll_root [OF p, of "[1 / 2, 1 / 2, 1 / 4]"] unfolding e ROOT_ONLY_def .
  have v: "m_games (foldl bump ?n [1 / 2, 1 / 2]) = 2"
    "m_mean (foldl bump ?n [1 / 2, 1 / 2]) = 1 / 2"
    "m_games (foldl bump ?n [1 / 2, 1 / 2, 1 / 4]) = 3"
    "m_mean (foldl bump ?n [1 / 2, 1 / 2, 1 / 4]) = 13981013 / 33554432"
    by code_simp+
  have c: "receivedAll ROOT_ONLY [(0, 1 / 2), (0, 1 / 2), (0, 1 / 4)] 0 = [1 / 2, 1 / 2, 1 / 4]"
    by (simp add: received_self)
  have d: "(2 * (1 / 2) + 1 / 4) / (2 + 1) = (5 / 12 :: rat)"
    "sum_list [1 / 2, 1 / 2, 1 / 4] / 3 = (5 / 12 :: rat)"
    "(13981013 / 33554432 :: rat) \<noteq> 5 / 12"
    by simp_all
  have "map_option (\<lambda>t. (m_games (t ! 0), m_mean (t ! 0)))
      (propagateAll ROOT_ONLY [(0, 1 / 2), (0, 1 / 2)]) = Some (2, 1 / 2)"
    unfolding a option.map nth_Cons_0 v ..
  moreover have "map_option (\<lambda>t. (m_games (t ! 0), m_mean (t ! 0)))
      (propagateAll ROOT_ONLY [(0, 1 / 2), (0, 1 / 2), (0, 1 / 4)]) = Some (3, 13981013 / 33554432)"
    unfolding b option.map nth_Cons_0 v ..
  ultimately show ?thesis using c d by blast
qed

text \<open>
  Claim C3, amended. On a well-formed store \<^verbatim>\<open>propagateResult(v)\<close> on node \<open>i\<close> returns;
  it sets the mean of the node to the binary32 value of (visits * mean + v) / (visits + 1),
  the product, the sum and the quotient each rounded, and adds one to its visits; on a node
  without parent it does nothing else, and on a node with parent \<open>p\<close> it goes on as
  \<^verbatim>\<open>propagateResult(1 - v)\<close> on \<open>p\<close>, the difference rounded. Consequently, after any
  sequence of calls with values in [0, 1] every node \<open>j\<close> is the node it was, updated in
  this way with the values it has received, in order; these values lie in [0, 1]; its
  visits have grown by their number; and if its mean was in [0, 1] (a new node has the mean
  0), its mean is in [0, 1].
\<close>

theorem propagateResult_running_mean:
  assumes wf: "wf_tree t" and i: "i < length t"
  shows "(\<exists>t'. propagateResult t i v = Some t'
            \<and> m_mean (t' ! i) =
                fdiv (fadd (fmul (toFloat (m_games (t ! i))) (m_mean (t ! i))) v)
                  (toFloat (m_games (t ! i) + 1))
            \<and> m_games (t' ! i) = m_games (t ! i) + 1
            \<and> (m_parent (t ! i) = None \<longrightarrow> t' = t[i := bump (t ! i) v]))
     \<and> (\<forall>p. m_parent (t ! i) = Some p \<longrightarrow>
           propagateResult t i v = propagateResult (t[i := bump (t ! i) v]) p (fsub 1 v))
     \<and> ((\<forall>(k, w) \<in> set calls. k < length t \<and> 0 \<le> w \<and> w \<le> 1)
         \<longrightarrow> (\<exists>t'. propagateAll t calls = Some t'
                \<and> (\<forall>j<length t.
                      t' ! j = foldl bump (t ! j) (receivedAll t calls j)
                      \<and> (\<forall>w \<in> set (receivedAll t calls j). 0 \<le> w \<and> w \<le> 1)
                      \<and> m_games (t' ! j) = m_games (t ! j) + length (receivedAll t calls j)
                      \<and> (0 \<le> m_mean (t ! j) \<and> m_mean (t ! j) \<le> 1
                           \<longrightarrow> 0 \<le> m_mean (t' ! j) \<and> m_mean (t' ! j) \<le> 1))))"
proof (intro conjI allI impI)
  from propagateResult_effect [OF wf i, of v]
  obtain t' where t': "propagateResult t i v = Some t'"
    "\<forall>j<length t. t' ! j = (case received t i v j of None \<Rightarrow> t ! j | Some w \<Rightarrow> bump (t ! j) w)"
    by blast
  from t'(2) i have n: "t' ! i = bump (t ! i) v" by (simp add: received_self)
  have "t' = t[i := bump (t ! i) v]" if "m_parent (t ! i) = None"
    using that t'(1) i by (subst (asm) propagateResult.simps) simp
  with t'(1) n show "\<exists>t'. propagateResult t i v = Some t'
      \<and> m_mean (t' ! i) =
          fdiv (fadd (fmul (toFloat (m_games (t ! i))) (m_mean (t ! i))) v)
            (toFloat (m_games (t ! i) + 1))
      \<and> m_games (t' ! i) = m_games (t ! i) + 1
      \<and> (m_parent (t ! i) = None \<longrightarrow> t' = t[i := bump (t ! i) v])"
    by simp
next
  fix p
  assume "m_parent (t ! i) = Some p"
  then show "propagateResult t i v = propagateResult (t[i := bump (t ! i) v]) p (fsub 1 v)"
    using i by (subst propagateResult.simps) simp
next
  assume a: "\<forall>(k, w) \<in> set calls. k < length t \<and> 0 \<le> w \<and> w \<le> 1"
  then have c1: "\<forall>(k, w) \<in> set calls. k < length t" and c2: "\<forall>(k, w) \<in> set calls. 0 \<le> w \<and> w \<le> 1"
    by auto
  from propagateAll_effect [OF wf c1]
  obtain t' where t': "propagateAll t calls = Some t'"
    "\<forall>j<length t. t' ! j = foldl bump (t ! j) (receivedAll t calls j)"
    by blast
  have "t' ! j = foldl bump (t ! j) (receivedAll t calls j)
      \<and> (\<forall>w \<in> set (receivedAll t calls j). 0 \<le> w \<and> w \<le> 1)
      \<and> m_games (t' ! j) = m_games (t ! j) + length (receivedAll t calls j)
      \<and> (0 \<le> m_mean (t ! j) \<and> m_mean (t ! j) \<le> 1
           \<longrightarrow> 0 \<le> m_mean (t' ! j) \<and> m_mean (t' ! j) \<le> 1)"
    if j: "j < length t" for j
  proof -
    let ?vs = "receivedAll t calls j"
    from t'(2) j have e: "t' ! j = foldl bump (t ! j) ?vs" by simp
    have r: "\<forall>w \<in> set ?vs. 0 \<le> w \<and> w \<le> 1"
      using receivedAll_range [OF c2, of _ t j] by blast
    have g: "m_games (t' ! j) = m_games (t ! j) + length ?vs"
      unfolding e by (rule foldl_bump_games)
    have "0 \<le> m_mean (t' ! j) \<and> m_mean (t' ! j) \<le> 1"
      if "0 \<le> m_mean (t ! j) \<and> m_mean (t ! j) \<le> 1"
      using that foldl_bump_range [OF r, of "t ! j"] unfolding e by blast
    with e r g show ?thesis by blast
  qed
  with t'(1) show "\<exists>t'. propagateAll t calls = Some t'
      \<and> (\<forall>j<length t.
            t' ! j = foldl bump (t ! j) (receivedAll t calls j)
            \<and> (\<forall>w \<in> set (receivedAll t calls j). 0 \<le> w \<and> w \<le> 1)
            \<and> m_games (t' ! j) = m_games (t ! j) + length (receivedAll t calls j)
            \<and> (0 \<le> m_mean (t ! j) \<and> m_mean (t ! j) \<le> 1
                 \<longrightarrow> 0 \<le> m_mean (t' ! j) \<and> m_mean (t' ! j) \<le> 1))"
    by blast
qed

lemma SMALL_TREE_wf: "wf_tree SMALL_TREE"
  by (auto simp: wf_tree_def SMALL_TREE_def nth_Cons' less_Suc_eq numeral_3_eq_3)

lemma SMALL_TREE_inv: "treeInv SMALL_TREE"
  by (auto simp: treeInv_def SMALL_TREE_def nth_Cons' less_Suc_eq numeral_3_eq_3)

lemma SMALL_TREE_length: "length SMALL_TREE = 3"
  by (simp add: SMALL_TREE_def)

lemma SMALL_TREE_path: "pathToRoot SMALL_TREE 1 = [1, 0]"
  by (simp add: pathToRoot.simps SMALL_TREE_def)

theorem propagateResult_running_mean_witness:
  "(\<exists>t'. propagateResult SMALL_TREE 1 (1 / 4) = Some t'
      \<and> m_games (t' ! 1) = 2 \<and> m_mean (t' ! 1) = 3 / 8)
   \<and> (\<exists>t'. propagateAll SMALL_TREE [(1, 1 / 4), (2, 1)] = Some t'
      \<and> m_games (t' ! 0) = 4 \<and> m_mean (t' ! 0) = 7 / 16
      \<and> 0 \<le> m_mean (t' ! 0) \<and> m_mean (t' ! 0) \<le> 1)"
proof -
  have i: "1 < length SMALL_TREE" by (simp add: SMALL_TREE_def)
  have c: "\<forall>(k, w) \<in> set [(1, 1 / 4), (2, 1 :: float32)]. k < length SMALL_TREE \<and> 0 \<le> w \<and> w \<le> 1"
    by (simp add: SMALL_TREE_def)
  have r: "receivedAll SMALL_TREE [(1, 1 / 4), (2, 1)] 0 = [fsub 1 (1 / 4), fsub 1 1]"
    by (simp add: received.simps SMALL_TREE_def)
  note th = propagateResult_running_mean [OF SMALL_TREE_wf i, of "1 / 4" "[(1, 1 / 4), (2, 1)]"]
  from th obtain t1 where t1: "propagateResult SMALL_TREE 1 (1 / 4) = Some t1"
    "m_mean (t1 ! 1) =
       fdiv (fadd (fmul (toFloat (m_games (SMALL_TREE ! 1))) (m_mean (SMALL_TREE ! 1))) (1 / 4))
         (toFloat (m_games (SMALL_TREE ! 1) + 1))"
    "m_games (t1 ! 1) = m_games (SMALL_TREE ! 1) + 1"
    by blast
  have n1: "m_games (SMALL_TREE ! 1) = 1" "m_mean (SMALL_TREE ! 1) = 1 / 2"
    by (simp_all add: SMALL_TREE_def)
  have v: "fdiv (fadd (fmul (toFloat 1) (1 / 2)) (1 / 4)) (toFloat (1 + 1)) = 3 / 8"
    by code_simp
  from t1(2,3) have "m_games (t1 ! 1) = 2 \<and> m_mean (t1 ! 1) = 3 / 8"
    unfolding n1 v by simp
  with t1(1) have a: "\<exists>t'. propagateResult SMALL_TREE 1 (1 / 4) = Some t'
      \<and> m_games (t' ! 1) = 2 \<and> m_mean (t' ! 1) = 3 / 8"
    by blast
  from th c obtain t' where t': "propagateAll SMALL_TREE [(1, 1 / 4), (2, 1)] = Some t'"
    "\<forall>j<length SMALL_TREE.
        t' ! j = foldl bump (SMALL_TREE ! j) (receivedAll SMALL_TREE [(1, 1 / 4), (2, 1)] j)
        \<and> (\<forall>w \<in> set (receivedAll SMALL_TREE [(1, 1 / 4), (2, 1)] j). 0 \<le> w \<and> w \<le> 1)
        \<and> m_games (t' ! j)
            = m_games (SMALL_TREE ! j) + length (receivedAll SMALL_TREE [(1, 1 / 4), (2, 1)] j)
        \<and> (0 \<le> m_mean (SMALL_TREE ! j) \<and> m_mean (SMALL_TREE ! j) \<le> 1
             \<longrightarrow> 0 \<le> m_mean (t' ! j) \<and> m_mean (t' ! j) \<le> 1)"
    by blast
  have "0 < length SMALL_TREE" by (simp add: SMALL_TREE_def)
  with t'(2) have b: "m_games (t' ! 0)
        = m_games (SMALL_TREE ! 0) + length (receivedAll SMALL_TREE [(1, 1 / 4), (2, 1)] 0)"
    "0 \<le> m_mean (SMALL_TREE ! 0) \<and> m_mean (SMALL_TREE ! 0) \<le> 1
       \<longrightarrow> 0 \<le> m_mean (t' ! 0) \<and> m_mean (t' ! 0) \<le> 1"
    "t' ! 0 = foldl bump (SMALL_TREE ! 0) (receivedAll SMALL_TREE [(1, 1 / 4), (2, 1)] 0)"
    by blast+
  have "m_mean (foldl bump (SMALL_TREE ! 0) [fsub 1 (1 / 4), fsub 1 1]) = 7 / 16"
    by code_simp
  with b(3) have mm: "m_mean (t' ! 0) = 7 / 16" unfolding r by simp
  have n0: "m_games (SMALL_TREE ! 0) = 2" "m_mean (SMALL_TREE ! 0) = 1 / 2"
    by (simp_all add: SMALL_TREE_def)
  from b(1) have g: "m_games (t' ! 0) = 4" unfolding r n0 by simp
  with b(2) have "0 \<le> m_mean (t' ! 0) \<and> m_mean (t' ! 0) \<le> 1" unfolding n0 by simp
  with t'(1) a g mm show ?thesis by blast
qed

subsection \<open>Playouts\<close>

lemma emptyCount_update:
  "k < length b \<Longrightarrow> b ! k = EMPTY \<Longrightarrow> emptyCount (b[k := BLACK]) + 1 = emptyCount b"
proof (induction b arbitrary: k)
  case Nil
  then show ?case by simp
next
  case (Cons c b)
  show ?case
  proof (cases k)
    case 0
    with Cons.prems show ?thesis by (simp add: emptyCount_def)
  next
    case (Suc k')
    with Cons.prems have "emptyCount (b[k' := BLACK]) + 1 = emptyCount b"
      by (intro Cons.IH) simp_all
    then show ?thesis using Suc by (simp add: emptyCount_def)
  qed
qed

lemma onlyFlips_emptyCount:
  assumes "onlyFlips a b"
  shows "emptyCount b = emptyCount a"
proof -
  have "map (\<lambda>cell. cell = EMPTY) b = map (\<lambda>cell. cell = EMPTY) a"
    using assms by (intro nth_equalityI) (auto simp: onlyFlips_def)
  then have "length (filter id (map (\<lambda>cell. cell = EMPTY) b))
      = length (filter id (map (\<lambda>cell. cell = EMPTY) a))"
    by simp
  then show ?thesis by (simp add: emptyCount_def filter_map o_def)
qed

lemma flipPlayer_emptyCount: "emptyCount (flipPlayer b) = emptyCount b"
proof -
  have "(flipCell cell = EMPTY) = (cell = EMPTY)" for cell by (cases cell) simp_all
  then show ?thesis by (simp add: emptyCount_def flipPlayer_def filter_map o_def)
qed

lemma successor_emptyCount:
  assumes len: "length b = BOARD_CELLS" and r: "r \<in> set (getNextStates b)"
  shows "length r = BOARD_CELLS" "emptyCount r < emptyCount b"
proof -
  from r obtain x y where p: "fst (put x y b)" and rr: "r = flipPlayer (snd (put x y b))"
    by (auto simp: getNextStates_coords)
  note a = put_onlyFlips [OF p]
  have k: "x + y * BOARD_SIZE < length b"
    using a(1,2) len by (simp add: BOARD_SIZE_def BOARD_CELLS_def)
  have e: "b ! (x + y * BOARD_SIZE) = EMPTY" using a(3) by (simp add: atB_def)
  from a(4) have "length (snd (put x y b)) = length b" by (simp add: onlyFlips_def setB_def)
  then show "length r = BOARD_CELLS" using len by (simp add: rr flipPlayer_def)
  have "emptyCount (snd (put x y b)) = emptyCount (setB b x y BLACK)"
    by (rule onlyFlips_emptyCount [OF a(4)])
  also have "\<dots> + 1 = emptyCount b"
    using emptyCount_update [OF k e] by (simp add: setB_def)
  finally show "emptyCount r < emptyCount b" by (simp add: rr flipPlayer_emptyCount)
qed

lemma randomIndex_range:
  "0 < n \<Longrightarrow> \<exists>idx rng'. randomIndex n rng = Inr (idx, rng') \<and> idx < n"
  by (simp add: randomIndex_def)

lemma playoutLoop_terminates:
  "length current = BOARD_CELLS \<Longrightarrow>
   \<exists>current' player' rng'. playoutLoop current player passed rng = Some (Inr (current', player', rng'))"
proof (induction "2 * emptyCount current + (if passed then 0 else 1)"
    arbitrary: current player passed rng rule: less_induct)
  case less
  show ?case
  proof (cases "isFilled current")
    case True
    then show ?thesis by (subst playoutLoop.simps) simp
  next
    case nf: False
    show ?thesis
    proof (cases "getNextStates current = []")
      case True
      show ?thesis
      proof (cases passed)
        case True
        with nf \<open>getNextStates current = []\<close> show ?thesis
          by (subst playoutLoop.simps) simp
      next
        case False
        have fl: "emptyCount (flipped current) = emptyCount current"
          by (simp add: flipped_def flipPlayer_emptyCount)
        have fl2: "length (flipped current) = BOARD_CELLS"
          using less.prems by (simp add: flipped_def flipPlayer_def)
        have "\<exists>current' player' rng'.
            playoutLoop (flipped current) (nextPlayer player) True rng
              = Some (Inr (current', player', rng'))"
          using False fl fl2 by (intro less.hyps) simp_all
        then show ?thesis
          using nf True False by (subst playoutLoop.simps) simp
      qed
    next
      case False
      then have "0 < length (getNextStates current)" by simp
      from randomIndex_range [OF this, of rng]
      obtain idx rng' where ri: "randomIndex (length (getNextStates current)) rng = Inr (idx, rng')"
        "idx < length (getNextStates current)"
        by blast
      then have mem: "getNextStates current ! idx \<in> set (getNextStates current)" by simp
      note s = successor_emptyCount [OF less.prems mem]
      have "\<exists>current' player' rng''.
          playoutLoop (getNextStates current ! idx) (nextPlayer player) False rng'
            = Some (Inr (current', player', rng''))"
        using s by (intro less.hyps) simp_all
      then show ?thesis
        using nf False ri(1) by (subst playoutLoop.simps) (simp add: Let_def)
    qed
  qed
qed

lemma playout_propagates:
  assumes "wf_tree t" "i < length t" "length (m_board (t ! i)) = BOARD_CELLS"
  shows "\<exists>t' rng' occ. playout t i rng = Some (Inr (t', rng')) \<and> propagateResult t i occ = Some t'"
proof -
  from playoutLoop_terminates [OF assms(3)]
  obtain current player rng' where
    l: "playoutLoop (m_board (t ! i)) (m_player (t ! i)) (m_isPassMove (t ! i)) rng
          = Some (Inr (current, player, rng'))"
    by blast
  let ?occ = "if player = m_player (t ! i) then fsub 1 (getBlackOccupation current)
              else getBlackOccupation current"
  from propagateResult_effect [OF assms(1,2), of ?occ]
  obtain t' where t': "propagateResult t i ?occ = Some t'" by blast
  then have "playout t i rng = Some (Inr (t', rng'))"
    using l by (auto simp: playout_def Let_def)
  with t' show ?thesis by blast
qed

text \<open>
  Claim C9. On a well-formed store, for a node whose board has \<open>BOARD_CELLS\<close> cells,
  \<^verbatim>\<open>playout\<close> returns, and in the store it leaves every node has the board, pass flag,
  children, player and parent it had; a node that is not on the path from node \<open>i\<close> to the
  root is unchanged altogether, and a node on that path has one visit more (so only its
  visits and mean change). The random source is advanced; it is not part of the store.
\<close>

theorem playout_frame:
  assumes wf: "wf_tree t" and i: "i < length t"
    and len: "length (m_board (t ! i)) = BOARD_CELLS"
  shows "\<exists>t' rng'. playout t i rng = Some (Inr (t', rng'))
     \<and> length t' = length t
     \<and> (\<forall>j<length t.
          m_board (t' ! j) = m_board (t ! j)
          \<and> m_isPassMove (t' ! j) = m_isPassMove (t ! j)
          \<and> m_children (t' ! j) = m_children (t ! j)
          \<and> m_player (t' ! j) = m_player (t ! j)
          \<and> m_parent (t' ! j) = m_parent (t ! j)
          \<and> (j \<notin> set (pathToRoot t i) \<longrightarrow> t' ! j = t ! j)
          \<and> (j \<in> set (pathToRoot t i) \<longrightarrow> m_games (t' ! j) = m_games (t ! j) + 1))"
proof -
  from playout_propagates [OF assms, of rng]
  obtain t' rng' occ where p: "playout t i rng = Some (Inr (t', rng'))"
    "propagateResult t i occ = Some t'"
    by blast
  note f = propagateResult_frame [OF wf i p(2)]
  note l = propagateResult_parents(1) [OF wf i p(2)]
  show ?thesis using p(1) l f by blast
qed

theorem playout_frame_witness:
  "\<exists>t' rng'. playout SMALL_TREE 1 (\<lambda>k. 0) = Some (Inr (t', rng'))
     \<and> m_board (t' ! 1) = m_board (SMALL_TREE ! 1)
     \<and> m_isPassMove (t' ! 1) = m_isPassMove (SMALL_TREE ! 1)
     \<and> m_children (t' ! 1) = m_children (SMALL_TREE ! 1)
     \<and> t' ! 2 = SMALL_TREE ! 2
     \<and> m_games (t' ! 1) = 2 \<and> m_games (t' ! 0) = 3"
proof -
  have i: "1 < length SMALL_TREE" by (simp add: SMALL_TREE_def)
  have b: "m_board (SMALL_TREE ! 1) = flipPlayer (snd (put 3 2 INITIAL_CELLS))"
    by (simp add: SMALL_TREE_def)
  have "length (flipPlayer (snd (put 3 2 INITIAL_CELLS))) = BOARD_CELLS" by code_simp
  with b have len: "length (m_board (SMALL_TREE ! 1)) = BOARD_CELLS" by simp
  from playout_frame [OF SMALL_TREE_wf i len, of "\<lambda>k. 0"]
  obtain t' rng' where p: "playout SMALL_TREE 1 (\<lambda>k. 0) = Some (Inr (t', rng'))"
    and q: "\<forall>j<length SMALL_TREE.
          m_board (t' ! j) = m_board (SMALL_TREE ! j)
          \<and> m_isPassMove (t' ! j) = m_isPassMove (SMALL_TREE ! j)
          \<and> m_children (t' ! j) = m_children (SMALL_TREE ! j)
          \<and> m_player (t' ! j) = m_player (SMALL_TREE ! j)
          \<and> m_parent (t' ! j) = m_parent (SMALL_TREE ! j)
          \<and> (j \<notin> set (pathToRoot SMALL_TREE 1) \<longrightarrow> t' ! j = SMALL_TREE ! j)
          \<and> (j \<in> set (pathToRoot SMALL_TREE 1) \<longrightarrow>
               m_games (t' ! j) = m_games (SMALL_TREE ! j) + 1)"
    by blast
  have l: "(0::nat) < length SMALL_TREE" "(1::nat) < length SMALL_TREE" "(2::nat) < length SMALL_TREE"
    by (simp_all add: SMALL_TREE_def)
  have g: "m_games (SMALL_TREE ! 1) = 1" "m_games (SMALL_TREE ! 0) = 2"
    by (simp_all add: SMALL_TREE_def)
  have m: "1 \<in> set (pathToRoot SMALL_TREE 1)" "0 \<in> set (pathToRoot SMALL_TREE 1)"
    "2 \<notin> set (pathToRoot SMALL_TREE 1)"
    unfolding SMALL_TREE_path by simp_all
  from q l(2) m(1) have "m_board (t' ! 1) = m_board (SMALL_TREE ! 1)
      \<and> m_isPassMove (t' ! 1) = m_isPassMove (SMALL_TREE ! 1)
      \<and> m_children (t' ! 1) = m_children (SMALL_TREE ! 1)
      \<and> m_games (t' ! 1) = m_games (SMALL_TREE ! 1) + 1"
    by blast
  then have a1: "m_board (t' ! 1) = m_board (SMALL_TREE ! 1)
      \<and> m_isPassMove (t' ! 1) = m_isPassMove (SMALL_TREE ! 1)
      \<and> m_children (t' ! 1) = m_children (SMALL_TREE ! 1)
      \<and> m_games (t' ! 1) = 2"
    unfolding g by simp
  from q l(3) m(3) have a2: "t' ! 2 = SMALL_TREE ! 2" by blast
  from q l(1) m(2) have "m_games (t' ! 0) = m_games (SMALL_TREE ! 0) + 1" by blast
  then have a0: "m_games (t' ! 0) = 3" unfolding g by simp
  from p a1 a2 a0 show ?thesis by blast
qed


subsection \<open>The invariants of the tree\<close>

lemma addChildren_eq:
  "i < length t \<Longrightarrow>
   addChildren t i boards player =
     t[i := (t ! i)\<lparr>m_children := m_children (t ! i) @ [length t..<length t + length boards]\<rparr>]
     @ map (\<lambda>board. Node_new board player (Some i)) boards"
proof (induction boards arbitrary: t)
  case Nil
  then show ?case by simp
next
  case (Cons board boards)
  let ?t2 = "(t @ [Node_new board player (Some i)])
          [i := (t ! i)\<lparr>m_children := m_children (t ! i) @ [length t]\<rparr>]"
  have t2: "?t2 = t[i := (t ! i)\<lparr>m_children := m_children (t ! i) @ [length t]\<rparr>]
      @ [Node_new board player (Some i)]"
    using Cons.prems by (simp add: list_update_append)
  have i2: "i < length ?t2" using Cons.prems by simp
  have n2: "?t2 ! i = (t ! i)\<lparr>m_children := m_children (t ! i) @ [length t]\<rparr>"
    using Cons.prems by (simp add: t2 nth_append)
  have "length t < length t + length (board # boards)" by simp
  from upt_conv_Cons [OF this]
  have u: "[length t] @ [Suc (length t)..<Suc (length t) + length boards]
      = [length t..<length t + length (board # boards)]"
    by (simp del: upt_Suc)
  have "addChildren ?t2 i boards player =
     ?t2[i := (?t2 ! i)\<lparr>m_children := m_children (?t2 ! i) @ [length ?t2..<length ?t2 + length boards]\<rparr>]
     @ map (\<lambda>board. Node_new board player (Some i)) boards"
    by (rule Cons.IH [OF i2])
  also have "\<dots> = t[i := (t ! i)\<lparr>m_children := m_children (t ! i)
        @ [length t..<length t + length (board # boards)]\<rparr>]
     @ map (\<lambda>board. Node_new board player (Some i)) (board # boards)"
    unfolding n2 using Cons.prems u by (simp add: t2 list_update_append del: upt_Suc)
  finally show ?case by simp
qed

lemma treeInv_pass_flag:
  assumes "wf_tree t" "treeInv t" "i < length t"
  shows "wf_tree (t[i := (t ! i)\<lparr>m_isPassMove := f\<rparr>])" "treeInv (t[i := (t ! i)\<lparr>m_isPassMove := f\<rparr>])"
  using assms by (auto simp: wf_tree_def treeInv_def nth_list_update)

lemma treeInv_addChildren:
  assumes wf: "wf_tree t" and inv: "treeInv t" and i: "i < length t" and g: "1 \<le> m_games (t ! i)"
  shows "wf_tree (addChildren t i boards player)" "treeInv (addChildren t i boards player)"
proof -
  let ?n = "(t ! i)\<lparr>m_children := m_children (t ! i) @ [length t..<length t + length boards]\<rparr>"
  let ?t' = "t[i := ?n] @ map (\<lambda>board. Node_new board player (Some i)) boards"
  have eq: "addChildren t i boards player = ?t'" by (rule addChildren_eq [OF i])
  have old: "m_parent (?t' ! j) = m_parent (t ! j)" "m_games (?t' ! j) = m_games (t ! j)"
    "m_games (?t' ! j) = 0 \<Longrightarrow> m_children (?t' ! j) = []"
    if "j < length t" for j
    using that i g inv by (auto simp: nth_append nth_list_update treeInv_def)
  have new: "m_parent (?t' ! j) = Some i" "m_games (?t' ! j) = 0" "m_children (?t' ! j) = []"
    if "length t \<le> j" "j < length ?t'" for j
    using that by (auto simp: nth_append Node_new_def)
  have w: "p < j" if "j < length ?t'" "m_parent (?t' ! j) = Some p" for j p
  proof (cases "j < length t")
    case True
    with that old(1) [OF True] wf show ?thesis by (simp add: wf_tree_def)
  next
    case False
    with that new(1) [of j] i show ?thesis by simp
  qed
  have a: "m_children (?t' ! j) = []" if "j < length ?t'" "m_games (?t' ! j) = 0" for j
    using that old(3) [of j] new(3) [of j] by (cases "j < length t") simp_all
  have b: "m_games (?t' ! j) \<le> m_games (?t' ! p)"
    if j: "j < length ?t'" and p: "m_parent (?t' ! j) = Some p" for j p
  proof (cases "j < length t")
    case True
    from w [OF j p] True have pl: "p < length t" by simp
    from old(1) [OF True] p inv True have "m_games (t ! j) \<le> m_games (t ! p)"
      by (simp add: treeInv_def)
    then show ?thesis using old(2) [OF True] old(2) [OF pl] by simp
  next
    case False
    with new(2) [of j] j show ?thesis by simp
  qed
  show "wf_tree (addChildren t i boards player)" unfolding eq wf_tree_def using w by blast
  show "treeInv (addChildren t i boards player)" unfolding eq treeInv_def using a b by blast
qed

lemma expandBody_treeInv:
  assumes wf: "wf_tree t" and inv: "treeInv t" and i: "i < length t"
    and r: "expandBody t i = Inr t'"
  shows "wf_tree t' \<and> treeInv t'"
proof (cases "m_children (t ! i) = [] \<and> m_games (t ! i) \<ge> MIN_VISITS_TO_EXPAND")
  case False
  with r have "t' = t" by (auto simp: expandBody_def)
  with wf inv show ?thesis by simp
next
  case True
  let ?t1 = "t[i := (t ! i)\<lparr>m_isPassMove := (getNextStates (m_board (t ! i)) = [])\<rparr>]"
  note p = treeInv_pass_flag [OF wf inv i, of "getNextStates (m_board (t ! i)) = []"]
  have i1: "i < length ?t1" using i by simp
  have g1: "1 \<le> m_games (?t1 ! i)" using True i by (simp add: MIN_VISITS_TO_EXPAND_def)
  note ac = treeInv_addChildren [OF p i1 g1]
  from r True have "t' = ?t1 \<or> (\<exists>boards player. t' = addChildren ?t1 i boards player)"
    by (auto simp: expandBody_def Let_def simp del: addChildren.simps
        split: if_splits option.splits)
  then show ?thesis using p ac by auto
qed

lemma expand_treeInv:
  assumes wf: "wf_tree t" and inv: "treeInv t" and i: "i < length t"
    and r: "expand t i = Inr t'"
  shows "wf_tree t' \<and> treeInv t'"
proof -
  from r have "t' = t \<or> expandBody t i = Inr t'"
    by (auto simp: expand_def split: if_splits option.splits)
  then show ?thesis using wf inv expandBody_treeInv [OF wf inv i] by auto
qed

lemma construct_treeInv:
  assumes wf: "wf_tree t" and inv: "treeInv t"
    and p: "case parent of None \<Rightarrow> True | Some p \<Rightarrow> p < length t"
  shows "wf_tree (t @ [Node_new board player parent])"
    "treeInv (t @ [Node_new board player parent])"
proof -
  let ?t' = "t @ [Node_new board player parent]"
  have old: "?t' ! j = t ! j" if "j < length t" for j using that by (simp add: nth_append)
  have new: "?t' ! length t = Node_new board player parent" by simp
  have w: "q < j" if "j < length ?t'" "m_parent (?t' ! j) = Some q" for j q
  proof (cases "j < length t")
    case True
    with that wf show ?thesis by (simp add: wf_tree_def old)
  next
    case False
    with that have "j = length t" by simp
    with that p show ?thesis by (simp add: Node_new_def)
  qed
  have a: "m_children (?t' ! j) = []" if "j < length ?t'" "m_games (?t' ! j) = 0" for j
  proof (cases "j < length t")
    case True
    with that inv show ?thesis by (simp add: treeInv_def old)
  next
    case False
    with that have "j = length t" by simp
    then show ?thesis by (simp add: Node_new_def)
  qed
  have b: "m_games (?t' ! j) \<le> m_games (?t' ! q)"
    if j: "j < length ?t'" and q: "m_parent (?t' ! j) = Some q" for j q
  proof (cases "j < length t")
    case True
    from w [OF j q] True have ql: "q < length t" by simp
    from q inv True show ?thesis by (simp add: treeInv_def old [OF True] old [OF ql])
  next
    case False
    with j have "j = length t" by simp
    then show ?thesis by (simp add: Node_new_def)
  qed
  show "wf_tree ?t'" unfolding wf_tree_def using w by blast
  show "treeInv ?t'" unfolding treeInv_def using a b by blast
qed

text \<open>
  Claim C7. On a well-formed store that satisfies the two invariants (a node without visits
  has no children; a node with a parent has at most the parent's visits), each operation
  leaves a well-formed store that satisfies them: constructing a node without parent or with
  parent \<open>i\<close>, \<^verbatim>\<open>expand\<close> on node \<open>i\<close> whenever it returns, \<^verbatim>\<open>propagateResult\<close> on node
  \<open>i\<close> (which returns), and \<^verbatim>\<open>playout\<close> on node \<open>i\<close> when its board has
  \<open>BOARD_CELLS\<close> cells (which returns).
\<close>

theorem tree_operations_keep_invariants:
  assumes wf: "wf_tree t" and inv: "treeInv t" and i: "i < length t"
  shows "wf_tree (t @ [Node_new board player None]) \<and> treeInv (t @ [Node_new board player None])
     \<and> wf_tree (t @ [Node_new board player (Some i)])
     \<and> treeInv (t @ [Node_new board player (Some i)])
     \<and> (\<forall>t'. expand t i = Inr t' \<longrightarrow> wf_tree t' \<and> treeInv t')
     \<and> (\<exists>t'. propagateResult t i occ = Some t' \<and> wf_tree t' \<and> treeInv t')
     \<and> (length (m_board (t ! i)) = BOARD_CELLS \<longrightarrow>
          (\<exists>t' rng'. playout t i rng = Some (Inr (t', rng')) \<and> wf_tree t' \<and> treeInv t'))"
proof (intro conjI allI impI)
  show "wf_tree (t @ [Node_new board player None])" "treeInv (t @ [Node_new board player None])"
    by (rule construct_treeInv [OF wf inv], simp)+
  show "wf_tree (t @ [Node_new board player (Some i)])"
    "treeInv (t @ [Node_new board player (Some i)])"
    by (rule construct_treeInv [OF wf inv], simp add: i)+
  show "wf_tree t'" "treeInv t'" if "expand t i = Inr t'" for t'
    using expand_treeInv [OF wf inv i that] by simp_all
  from propagateResult_effect [OF wf i, of occ]
  obtain t' where t': "propagateResult t i occ = Some t'" by blast
  from t' propagateResult_parents(2) [OF wf i t'] propagateResult_treeInv [OF wf i inv t']
  show "\<exists>t'. propagateResult t i occ = Some t' \<and> wf_tree t' \<and> treeInv t'" by blast
next
  assume len: "length (m_board (t ! i)) = BOARD_CELLS"
  from playout_propagates [OF wf i len, of rng]
  obtain t' rng' w where p: "playout t i rng = Some (Inr (t', rng'))"
    "propagateResult t i w = Some t'"
    by blast
  from p(1) propagateResult_parents(2) [OF wf i p(2)] propagateResult_treeInv [OF wf i inv p(2)]
  show "\<exists>t' rng'. playout t i rng = Some (Inr (t', rng')) \<and> wf_tree t' \<and> treeInv t'" by blast
qed

theorem tree_operations_keep_invariants_witness:
  "treeInv SMALL_TREE
   \<and> treeInv (SMALL_TREE @ [Node_new INITIAL_CELLS P_BLACK (Some 1)])
   \<and> (\<exists>t'. expand SMALL_TREE 1 = Inr t' \<and> treeInv t')
   \<and> (\<exists>t'. propagateResult SMALL_TREE 1 (1 / 4) = Some t' \<and> treeInv t')
   \<and> (\<exists>t' rng'. playout SMALL_TREE 1 (\<lambda>k. 0) = Some (Inr (t', rng')) \<and> treeInv t')"
proof -
  have i: "1 < length SMALL_TREE" by (simp add: SMALL_TREE_def)
  have b: "m_board (SMALL_TREE ! 1) = flipPlayer (snd (put 3 2 INITIAL_CELLS))"
    by (simp add: SMALL_TREE_def)
  have "length (flipPlayer (snd (put 3 2 INITIAL_CELLS))) = BOARD_CELLS" by code_simp
  with b have len: "length (m_board (SMALL_TREE ! 1)) = BOARD_CELLS" by simp
  have e: "\<exists>t'. expand SMALL_TREE 1 = Inr t'"
    by (simp add: expand_def expandBody_def Let_def SMALL_TREE_def MIN_VISITS_TO_EXPAND_def
        del: addChildren.simps)
  note th = tree_operations_keep_invariants [OF SMALL_TREE_wf SMALL_TREE_inv i,
      of INITIAL_CELLS P_BLACK "1 / 4" "\<lambda>k. 0"]
  from th e have "\<exists>t'. expand SMALL_TREE 1 = Inr t' \<and> treeInv t'" by blast
  with th len SMALL_TREE_inv show ?thesis by blast
qed

end
